theory Spec2Isabelle
  imports Complex_Main
begin

section \<open>The frozen-lake environment\<close>

text \<open>
  A shallow embedding of \<^verbatim>\<open>bg2625_lake.py\<close>. Python floats are modelled as real
  numbers. The transition model, value iteration, Q-learning and policy evaluation are
  read over the reals, with exact arithmetic; policy extraction, whose result is an
  index decided by comparing computed sums, is modelled with the rounding of every
  operation as a parameter. Python's sets of coordinates are HOL sets. The
  set \<^verbatim>\<open>self.states\<close> is only ever iterated, so it is kept as the list of its elements
  in iteration order; Python leaves that order unspecified, and the constructor below
  uses insertion order as one representative.
\<close>

type_synonym state = "int \<times> int"

datatype action = N | S | E | W

datatype error = KeyError | ValueError | IndexError | ZeroDivisionError

record FrozenLake =
  initial_state :: state
  width :: int
  height :: int
  targets :: "state set"
  holes :: "state set"
  blocked :: "state set"
  states :: "state list"
  gamma :: real
  success_prob :: real
  hole_reward :: real
  target_reward :: real
  living_reward :: real

text \<open>\<^verbatim>\<open>self.actions = ('n', 's', 'e', 'w')\<close>, the same tuple in every instance.\<close>

definition actions :: "action list" where
  "actions = [N, S, E, W]"

text \<open>\<^verbatim>\<open>__init__\<close>: the free cells are the grid cells in none of the three sets.\<close>

definition FrozenLake_init ::
  "int \<Rightarrow> int \<Rightarrow> state \<Rightarrow> state set \<Rightarrow> state set \<Rightarrow> state set \<Rightarrow> FrozenLake" where
  "FrozenLake_init w h start tgts blkd hls =
     \<lparr> initial_state = start, width = w, height = h,
       targets = tgts, holes = hls, blocked = blkd,
       states = concat (map (\<lambda>x. concat (map (\<lambda>y.
                  if (x, y) \<notin> tgts \<and> (x, y) \<notin> hls \<and> (x, y) \<notin> blkd then [(x, y)] else [])
                  [0..h - 1])) [0..w - 1]),
       gamma = 9 / 10, success_prob = 8 / 10, hole_reward = - 5,
       target_reward = 1, living_reward = - (1 / 10) \<rparr>"

subsection \<open>get\_transitions\<close>

text \<open>The test applied to the intended cell and to each perpendicular cell
  (source lines 56-58 and 64-66).\<close>

definition obstructed :: "FrozenLake \<Rightarrow> state \<Rightarrow> bool" where
  "obstructed L c =
     (fst c < 0 \<or> fst c > width L - 1 \<or> snd c < 0 \<or> snd c > height L - 1 \<or> c \<in> blocked L)"

fun success_cell :: "action \<Rightarrow> state \<Rightarrow> state" where
  "success_cell N (x, y) = (x, y - 1)"
| "success_cell S (x, y) = (x, y + 1)"
| "success_cell E (x, y) = (x + 1, y)"
| "success_cell W (x, y) = (x - 1, y)"

fun fail_cells :: "action \<Rightarrow> state \<Rightarrow> state list" where
  "fail_cells N (x, y) = [(x + 1, y), (x - 1, y)]"
| "fail_cells S (x, y) = [(x + 1, y), (x - 1, y)]"
| "fail_cells E (x, y) = [(x, y - 1), (x, y + 1)]"
| "fail_cells W (x, y) = [(x, y - 1), (x, y + 1)]"

text \<open>The \<^verbatim>\<open>for i, j in fail\<close> loop, threading \<^verbatim>\<open>result\<close> and \<^verbatim>\<open>remain_p\<close>.\<close>

fun fail_loop ::
  "FrozenLake \<Rightarrow> state list \<Rightarrow> (state \<times> real) list \<Rightarrow> real \<Rightarrow> (state \<times> real) list \<times> real" where
  "fail_loop L [] result remain_p = (result, remain_p)"
| "fail_loop L (c # cs) result remain_p =
     (if obstructed L c
      then fail_loop L cs result (remain_p + (1 - success_prob L) / 2)
      else fail_loop L cs (result @ [(c, (1 - success_prob L) / 2)]) remain_p)"

definition get_transitions :: "FrozenLake \<Rightarrow> state \<Rightarrow> action \<Rightarrow> (state \<times> real) list" where
  "get_transitions L st a =
     (let success = success_cell a st;
          (result, remain_p) =
             (if obstructed L success then ([], 0 + success_prob L)
              else ([(success, success_prob L)], 0));
          (result, remain_p) = fail_loop L (fail_cells a st) result remain_p
      in if remain_p > 0 then result @ [(st, remain_p)] else result)"

text \<open>The probability mass that the source accumulates in \<^verbatim>\<open>remain_p\<close>, written
  as the specification describes it: the mass of every candidate destination that is
  off the grid or blocked.\<close>

definition remain_mass :: "FrozenLake \<Rightarrow> state \<Rightarrow> action \<Rightarrow> real" where
  "remain_mass L st a =
     (if obstructed L (success_cell a st) then success_prob L else 0)
     + (\<Sum>c \<leftarrow> fail_cells a st. if obstructed L c then (1 - success_prob L) / 2 else 0)"


subsection \<open>move\<close>

text \<open>
  \<^verbatim>\<open>random.choices(population, weights)\<close> returns one element whose weight is
  positive. The model takes the draw from the random source as a number \<open>k\<close> that
  selects among those elements; with no such element the library call raises.
\<close>

definition move :: "FrozenLake \<Rightarrow> state \<Rightarrow> action \<Rightarrow> nat \<Rightarrow> error + state" where
  "move L st a k =
     (let transitions = get_transitions L st a;
          drawable = filter (\<lambda>i. 0 < snd i) transitions
      in if transitions = [] then Inl IndexError
         else if drawable = [] then Inl ValueError
         else Inr (fst (drawable ! (k mod length drawable))))"

subsection \<open>simple\_policy\_rollout and test\_policy\<close>

text \<open>
  The rollout loop has no bound. The list of draws is its fuel: the result is
  \<open>None\<close> when the draws run out before a target or hole is reached, \<open>Some (Inl e)\<close>
  when the source raises, and \<open>Some (Inr ((success, rewards), rest))\<close> when it returns,
  \<open>rest\<close> being the draws not yet consumed.
\<close>

fun rollout_loop ::
  "FrozenLake \<Rightarrow> (state \<rightharpoonup> action) \<Rightarrow> nat list \<Rightarrow> state \<Rightarrow> real
     \<Rightarrow> (error + (bool \<times> real) \<times> nat list) option" where
  "rollout_loop L policy [] st rewards =
     (if st \<in> targets L then Some (Inr ((True, rewards + target_reward L), []))
      else if st \<in> holes L then Some (Inr ((False, rewards + hole_reward L), []))
      else case policy st of None \<Rightarrow> Some (Inl KeyError) | Some a \<Rightarrow> None)"
| "rollout_loop L policy (k # ds) st rewards =
     (if st \<in> targets L then Some (Inr ((True, rewards + target_reward L), k # ds))
      else if st \<in> holes L then Some (Inr ((False, rewards + hole_reward L), k # ds))
      else case policy st of None \<Rightarrow> Some (Inl KeyError)
           | Some a \<Rightarrow>
               (case move L st a k of Inl e \<Rightarrow> Some (Inl e)
                | Inr st' \<Rightarrow> rollout_loop L policy ds st' (rewards + living_reward L)))"

definition simple_policy_rollout ::
  "FrozenLake \<Rightarrow> (state \<rightharpoonup> action) \<Rightarrow> nat list \<Rightarrow> (error + (bool \<times> real) \<times> nat list) option" where
  "simple_policy_rollout L policy ds = rollout_loop L policy ds (initial_state L) 0"

text \<open>The \<^verbatim>\<open>for i in range(t)\<close> loop of \<^verbatim>\<open>test_policy\<close>, with the number of
  iterations still to run.\<close>

fun test_loop ::
  "FrozenLake \<Rightarrow> (state \<rightharpoonup> action) \<Rightarrow> nat \<Rightarrow> nat list \<Rightarrow> real \<Rightarrow> real
     \<Rightarrow> (error + real \<times> real) option" where
  "test_loop L policy 0 ds numSuccess totalRewards = Some (Inr (numSuccess, totalRewards))"
| "test_loop L policy (Suc i) ds numSuccess totalRewards =
     (case simple_policy_rollout L policy ds of
        None \<Rightarrow> None
      | Some (Inl e) \<Rightarrow> Some (Inl e)
      | Some (Inr (result, ds')) \<Rightarrow>
          test_loop L policy i ds' (if fst result then numSuccess + 1 else numSuccess)
            (totalRewards + snd result))"

definition test_policy ::
  "FrozenLake \<Rightarrow> (state \<rightharpoonup> action) \<Rightarrow> int \<Rightarrow> nat list \<Rightarrow> (error + real \<times> real) option" where
  "test_policy L policy t ds =
     (case test_loop L policy (nat t) ds 0 0 of
        None \<Rightarrow> None
      | Some (Inl e) \<Rightarrow> Some (Inl e)
      | Some (Inr (numSuccess, totalRewards)) \<Rightarrow>
          if t = 0 then Some (Inl ZeroDivisionError)
          else Some (Inr (numSuccess / of_int t, totalRewards / of_int t)))"

subsection \<open>value\_iteration\<close>

text \<open>
  The solver methods are called on an instance \<open>L\<close> (\<^verbatim>\<open>self\<close>) but call
  \<^verbatim>\<open>lake.get_transitions\<close>, \<^verbatim>\<open>lake.move\<close> and \<^verbatim>\<open>lake.get_best_action_value\<close>
  on the module-level binding \<^verbatim>\<open>lake\<close>, which the main block creates before any method
  runs. That binding is the explicit parameter \<open>G\<close>.
\<close>

text \<open>The \<^verbatim>\<open>if/elif\<close> chain of lines 225-232.\<close>

definition s1_reward :: "FrozenLake \<Rightarrow> (state \<rightharpoonup> real) \<Rightarrow> state \<Rightarrow> error + real" where
  "s1_reward L values1 s1 =
     (if s1 \<in> targets L then Inr (target_reward L)
      else if s1 \<in> holes L then Inr (hole_reward L)
      else if s1 \<in> blocked L then Inr 0
      else case values1 s1 of None \<Rightarrow> Inl KeyError | Some v \<Rightarrow> Inr v)"

text \<open>The loop over \<^verbatim>\<open>transition_states\<close> of \<^verbatim>\<open>value_iteration\<close> (lines 223-234);
  \<open>rw\<close> is the \<^verbatim>\<open>if/elif\<close> chain.\<close>

fun trans_sum_loop ::
  "FrozenLake \<Rightarrow> (state \<Rightarrow> error + real) \<Rightarrow> (state \<times> real) list \<Rightarrow> real \<Rightarrow> error + real" where
  "trans_sum_loop L rw [] trans_sum = Inr trans_sum"
| "trans_sum_loop L rw ((s1, p) # ts) trans_sum =
     (case rw s1 of Inl e \<Rightarrow> Inl e
      | Inr r \<Rightarrow> trans_sum_loop L rw ts (trans_sum + p * (living_reward L + gamma L * r)))"

text \<open>The loop over \<^verbatim>\<open>self.actions\<close>, appending one sum per action.\<close>

fun action_loop ::
  "FrozenLake \<Rightarrow> FrozenLake \<Rightarrow> (state \<Rightarrow> error + real) \<Rightarrow> state \<Rightarrow> action list \<Rightarrow> real list
     \<Rightarrow> error + real list" where
  "action_loop L G rw st [] action_values = Inr action_values"
| "action_loop L G rw st (a # as) action_values =
     (case trans_sum_loop L rw (get_transitions G st a) 0 of Inl e \<Rightarrow> Inl e
      | Inr trans_sum \<Rightarrow> action_loop L G rw st as (action_values @ [trans_sum]))"

text \<open>Python's \<^verbatim>\<open>max\<close> of a list.\<close>

fun py_max :: "real list \<Rightarrow> error + real" where
  "py_max [] = Inl ValueError"
| "py_max (x # xs) = Inr (foldl max x xs)"

text \<open>One pass of \<^verbatim>\<open>for state in self.states\<close>: it either executes
  \<^verbatim>\<open>return values1\<close> (line 242) or runs to its end with the updated table and \<^verbatim>\<open>delta\<close>.\<close>

datatype sweep_result =
  Returned "state \<rightharpoonup> real"
| Completed "state \<rightharpoonup> real" real

fun sweep ::
  "FrozenLake \<Rightarrow> FrozenLake \<Rightarrow> real \<Rightarrow> (state \<rightharpoonup> real) \<Rightarrow> state list \<Rightarrow> (state \<rightharpoonup> real) \<Rightarrow> real
     \<Rightarrow> error + sweep_result" where
  "sweep L G threshold values1 [] vals delta = Inr (Completed vals delta)"
| "sweep L G threshold values1 (st # rest) vals delta =
     (case action_loop L G (s1_reward L values1) st actions [] of Inl e \<Rightarrow> Inl e
      | Inr action_values \<Rightarrow>
         (case py_max action_values of Inl e \<Rightarrow> Inl e
          | Inr max_action_value \<Rightarrow>
             (case values1 st of None \<Rightarrow> Inl KeyError
              | Some old \<Rightarrow>
                 let vals' = vals(st \<mapsto> max_action_value);
                     delta' = max delta \<bar>max_action_value - old\<bar>
                 in if delta' < threshold then Inr (Returned values1)
                    else sweep L G threshold values1 rest vals' delta')))"

text \<open>The \<^verbatim>\<open>while True\<close> loop has no bound; \<open>fuel\<close> counts the sweeps allowed, and
  \<open>None\<close> says that the loop has not returned within them.\<close>

fun vi_loop ::
  "nat \<Rightarrow> FrozenLake \<Rightarrow> FrozenLake \<Rightarrow> real \<Rightarrow> (state \<rightharpoonup> real) \<Rightarrow> (error + (state \<rightharpoonup> real)) option" where
  "vi_loop 0 L G threshold vals = None"
| "vi_loop (Suc fuel) L G threshold vals =
     (case sweep L G threshold vals (states L) vals 0 of
        Inl e \<Rightarrow> Some (Inl e)
      | Inr (Returned v) \<Rightarrow> Some (Inr v)
      | Inr (Completed vals' delta) \<Rightarrow> vi_loop fuel L G threshold vals')"

text \<open>Line 213, the table that \<^verbatim>\<open>value_iteration\<close> starts from.\<close>

definition zero_values :: "FrozenLake \<Rightarrow> (state \<rightharpoonup> real)" where
  "zero_values L = map_of (map (\<lambda>st. (st, 0)) (states L))"

definition value_iteration ::
  "nat \<Rightarrow> FrozenLake \<Rightarrow> FrozenLake \<Rightarrow> real \<Rightarrow> (error + (state \<rightharpoonup> real)) option" where
  "value_iteration fuel L G threshold = vi_loop fuel L G threshold (zero_values L)"

subsection \<open>extract\_policy\<close>

text \<open>
  \<^verbatim>\<open>extract_policy\<close> returns, for each state, the index of the greatest of four computed
  sums, and sums that are equal as real numbers need not be equal as the program
  computes them. Its model therefore follows the program's arithmetic: a binary64
  operation returns the exact result rounded to a representable number, and the
  function \<open>rnd\<close> is that rounding, applied after every arithmetic operation in the
  order in which the source evaluates. The numeric fields of the lake and the entries
  of the value function stand for the floats that the program holds. Nothing is
  assumed of \<open>rnd\<close>; exact arithmetic is the instance \<open>rnd = (\<lambda>x. x)\<close>. All values are
  finite real numbers: infinities and NaN are not modelled.
\<close>

text \<open>\<^verbatim>\<open>get_transitions\<close> (lines 39-73) with every operation rounded.\<close>

fun fail_loop_rnd ::
  "(real \<Rightarrow> real) \<Rightarrow> FrozenLake \<Rightarrow> state list \<Rightarrow> (state \<times> real) list \<Rightarrow> real
     \<Rightarrow> (state \<times> real) list \<times> real" where
  "fail_loop_rnd rnd L [] result remain_p = (result, remain_p)"
| "fail_loop_rnd rnd L (c # cs) result remain_p =
     (if obstructed L c
      then fail_loop_rnd rnd L cs result
             (rnd (remain_p + rnd (rnd (1 - success_prob L) / 2)))
      else fail_loop_rnd rnd L cs
             (result @ [(c, rnd (rnd (1 - success_prob L) / 2))]) remain_p)"

definition get_transitions_rnd ::
  "(real \<Rightarrow> real) \<Rightarrow> FrozenLake \<Rightarrow> state \<Rightarrow> action \<Rightarrow> (state \<times> real) list" where
  "get_transitions_rnd rnd L st a =
     (let success = success_cell a st;
          (result, remain_p) =
             (if obstructed L success then ([], rnd (0 + success_prob L))
              else ([(success, success_prob L)], 0));
          (result, remain_p) = fail_loop_rnd rnd L (fail_cells a st) result remain_p
      in if remain_p > 0 then result @ [(st, remain_p)] else result)"

text \<open>The \<^verbatim>\<open>if/elif/else\<close> chain of lines 259-264: no branch for blocked cells.\<close>

definition state_reward :: "FrozenLake \<Rightarrow> (state \<rightharpoonup> real) \<Rightarrow> state \<Rightarrow> error + real" where
  "state_reward L vals next_state =
     (if next_state \<in> targets L then Inr (target_reward L)
      else if next_state \<in> holes L then Inr (hole_reward L)
      else case vals next_state of None \<Rightarrow> Inl KeyError | Some v \<Rightarrow> Inr v)"

text \<open>Lines 256-266: \<^verbatim>\<open>trans_sum += probability * (self.living_reward + self.gamma * state_reward)\<close>.\<close>

fun trans_sum_loop_rnd ::
  "(real \<Rightarrow> real) \<Rightarrow> FrozenLake \<Rightarrow> (state \<Rightarrow> error + real) \<Rightarrow> (state \<times> real) list \<Rightarrow> real
     \<Rightarrow> error + real" where
  "trans_sum_loop_rnd rnd L rw [] trans_sum = Inr trans_sum"
| "trans_sum_loop_rnd rnd L rw ((next_state, probability) # ts) trans_sum =
     (case rw next_state of Inl e \<Rightarrow> Inl e
      | Inr r \<Rightarrow>
         trans_sum_loop_rnd rnd L rw ts
           (rnd (trans_sum + rnd (probability * rnd (living_reward L + rnd (gamma L * r))))))"

text \<open>Lines 253-267, the loop over \<^verbatim>\<open>self.actions\<close>.\<close>

fun action_loop_rnd ::
  "(real \<Rightarrow> real) \<Rightarrow> FrozenLake \<Rightarrow> FrozenLake \<Rightarrow> (state \<Rightarrow> error + real) \<Rightarrow> state \<Rightarrow> action list
     \<Rightarrow> real list \<Rightarrow> error + real list" where
  "action_loop_rnd rnd L G rw st [] action_sum = Inr action_sum"
| "action_loop_rnd rnd L G rw st (a # as) action_sum =
     (case trans_sum_loop_rnd rnd L rw (get_transitions_rnd rnd G st a) 0 of Inl e \<Rightarrow> Inl e
      | Inr trans_sum \<Rightarrow> action_loop_rnd rnd L G rw st as (action_sum @ [trans_sum]))"

text \<open>\<^verbatim>\<open>numpy.argmax\<close>: the index of the first occurrence of the maximum.\<close>

fun argmax_loop :: "real list \<Rightarrow> nat \<Rightarrow> real \<Rightarrow> nat \<Rightarrow> nat" where
  "argmax_loop [] i best best_i = best_i"
| "argmax_loop (x # xs) i best best_i =
     (if x > best then argmax_loop xs (Suc i) x i else argmax_loop xs (Suc i) best best_i)"

fun argmax :: "real list \<Rightarrow> error + nat" where
  "argmax [] = Inl ValueError"
| "argmax (x # xs) = Inr (argmax_loop xs 1 x 0)"

fun ep_loop ::
  "(real \<Rightarrow> real) \<Rightarrow> FrozenLake \<Rightarrow> FrozenLake \<Rightarrow> (state \<rightharpoonup> real) \<Rightarrow> state list
     \<Rightarrow> (state \<rightharpoonup> action) \<Rightarrow> error + (state \<rightharpoonup> action)" where
  "ep_loop rnd L G vals [] policy = Inr policy"
| "ep_loop rnd L G vals (st # rest) policy =
     (case action_loop_rnd rnd L G (state_reward L vals) st actions [] of Inl e \<Rightarrow> Inl e
      | Inr action_sum \<Rightarrow>
         (case argmax action_sum of Inl e \<Rightarrow> Inl e
          | Inr max_action_index \<Rightarrow>
             if max_action_index < length actions
             then ep_loop rnd L G vals rest (policy(st \<mapsto> actions ! max_action_index))
             else Inl IndexError))"

definition extract_policy ::
  "(real \<Rightarrow> real) \<Rightarrow> FrozenLake \<Rightarrow> FrozenLake \<Rightarrow> (state \<rightharpoonup> real)
     \<Rightarrow> error + (state \<rightharpoonup> action)" where
  "extract_policy rnd L G vals = ep_loop rnd L G vals (states L) Map.empty"

subsection \<open>get\_best\_action\_value and Qlearner\<close>

text \<open>\<^verbatim>\<open>action_value_map\<close> is a dictionary filled in the order of \<^verbatim>\<open>self.actions\<close>;
  it is kept as the list of its items in that order.\<close>

fun avm_loop ::
  "(state \<times> action \<rightharpoonup> real) \<Rightarrow> state \<Rightarrow> action list \<Rightarrow> (action \<times> real) list
     \<Rightarrow> error + (action \<times> real) list" where
  "avm_loop Q st [] action_value_map = Inr action_value_map"
| "avm_loop Q st (a # as) action_value_map =
     (case Q (st, a) of None \<Rightarrow> Inl KeyError
      | Some v \<Rightarrow> avm_loop Q st as (action_value_map @ [(a, v)]))"

text \<open>\<^verbatim>\<open>max(keys, key=...)\<close> keeps the first key whose value is maximal.\<close>

fun max_key_loop :: "(action \<times> real) list \<Rightarrow> action \<times> real \<Rightarrow> action \<times> real" where
  "max_key_loop [] best = best"
| "max_key_loop ((a, v) # rest) best =
     (if v > snd best then max_key_loop rest (a, v) else max_key_loop rest best)"

definition get_best_action_value ::
  "(state \<times> action \<rightharpoonup> real) \<Rightarrow> state \<Rightarrow> error + action \<times> real" where
  "get_best_action_value Q st =
     (case avm_loop Q st actions [] of
        Inl e \<Rightarrow> Inl e
      | Inr [] \<Rightarrow> Inl ValueError
      | Inr (item # items) \<Rightarrow> Inr (max_key_loop items item))"

text \<open>The local variables of \<^verbatim>\<open>Qlearner\<close> that change in its loop; \<open>cur_state\<close> is the
  local \<^verbatim>\<open>state\<close>.\<close>

record qstate =
  Qvalues :: "state \<times> action \<rightharpoonup> real"
  cur_state :: state
  robot_count :: int
  current_alpha :: real
  current_epsilon :: real

text \<open>What one iteration reads from the random source: \<^verbatim>\<open>random.uniform(0, 1)\<close>,
  \<^verbatim>\<open>random.choice(self.actions)\<close> (used only when exploring) and the draw of
  \<^verbatim>\<open>lake.move\<close>.\<close>

record draw =
  uniform :: real
  choice :: action
  pick :: nat

text \<open>Lines 325-329.\<close>

definition anneal :: "int \<Rightarrow> real \<Rightarrow> real \<Rightarrow> qstate \<Rightarrow> error + qstate" where
  "anneal num_robots final_alpha final_epsilon q =
     (if of_int (robot_count q) < (2 / 10) * (of_int num_robots :: real) then
        (if current_alpha q > final_alpha \<or> current_epsilon q > final_epsilon then
           (if num_robots = 0 then Inl ZeroDivisionError
            else Inr (q\<lparr> current_alpha :=
                           (if current_alpha q > final_alpha
                            then current_alpha q - 1 / of_int num_robots else current_alpha q),
                         current_epsilon :=
                           (if current_epsilon q > final_epsilon
                            then current_epsilon q - 1 / of_int num_robots else current_epsilon q) \<rparr>))
         else Inr q)
      else Inr q)"

text \<open>The body of \<^verbatim>\<open>while robot_count > 0\<close> (lines 294-329).\<close>

definition q_step ::
  "FrozenLake \<Rightarrow> FrozenLake \<Rightarrow> int \<Rightarrow> real \<Rightarrow> real \<Rightarrow> draw \<Rightarrow> qstate \<Rightarrow> error + qstate" where
  "q_step L G num_robots final_alpha final_epsilon d q =
     (case get_best_action_value (Qvalues q) (cur_state q) of Inl e \<Rightarrow> Inl e
      | Inr best \<Rightarrow>
         let chosen_action = (if uniform d < current_epsilon q then choice d else fst best) in
         (case move G (cur_state q) chosen_action (pick d) of Inl e \<Rightarrow> Inl e
          | Inr next_state \<Rightarrow>
             (case Qvalues q (cur_state q, chosen_action) of None \<Rightarrow> Inl KeyError
              | Some old \<Rightarrow>
                 if next_state \<in> targets L then
                   anneal num_robots final_alpha final_epsilon
                     (q\<lparr> Qvalues := (Qvalues q)((cur_state q, chosen_action) \<mapsto>
                            (1 - current_alpha q) * old
                            + current_alpha q * (living_reward L + gamma L * target_reward L)),
                         cur_state := initial_state L,
                         robot_count := robot_count q - 1 \<rparr>)
                 else if next_state \<in> holes L then
                   anneal num_robots final_alpha final_epsilon
                     (q\<lparr> Qvalues := (Qvalues q)((cur_state q, chosen_action) \<mapsto>
                            (1 - current_alpha q) * old
                            + current_alpha q * (living_reward L + gamma L * hole_reward L)),
                         cur_state := initial_state L,
                         robot_count := robot_count q - 1 \<rparr>)
                 else
                   (case get_best_action_value (Qvalues q) next_state of Inl e \<Rightarrow> Inl e
                    | Inr best' \<Rightarrow>
                       anneal num_robots final_alpha final_epsilon
                         (q\<lparr> Qvalues := (Qvalues q)((cur_state q, chosen_action) \<mapsto>
                                (1 - current_alpha q) * old
                                + current_alpha q * (living_reward L + gamma L * snd best')),
                             cur_state := next_state \<rparr>)))))"

text \<open>The loop consumes one \<open>draw\<close> per iteration; the list of draws is its fuel, and
  \<open>None\<close> says that \<^verbatim>\<open>robot_count\<close> is still positive when the draws run out. The loop's
  result is the whole local state, of which \<^verbatim>\<open>Qlearner\<close> returns the table.\<close>

fun q_loop ::
  "FrozenLake \<Rightarrow> FrozenLake \<Rightarrow> int \<Rightarrow> real \<Rightarrow> real \<Rightarrow> draw list \<Rightarrow> qstate
     \<Rightarrow> (error + qstate) option" where
  "q_loop L G num_robots final_alpha final_epsilon [] q =
     (if robot_count q > 0 then None else Some (Inr q))"
| "q_loop L G num_robots final_alpha final_epsilon (d # ds) q =
     (if robot_count q > 0 then
        (case q_step L G num_robots final_alpha final_epsilon d q of Inl e \<Rightarrow> Some (Inl e)
         | Inr q' \<Rightarrow> q_loop L G num_robots final_alpha final_epsilon ds q')
      else Some (Inr q))"

definition q_init :: "FrozenLake \<Rightarrow> real \<Rightarrow> real \<Rightarrow> int \<Rightarrow> qstate" where
  "q_init L alpha epsilon num_robots =
     \<lparr> Qvalues = map_of (concat (map (\<lambda>st. map (\<lambda>a. ((st, a), 0)) actions) (states L))),
       cur_state = initial_state L, robot_count = num_robots,
       current_alpha = alpha, current_epsilon = epsilon \<rparr>"

definition Qlearner ::
  "FrozenLake \<Rightarrow> FrozenLake \<Rightarrow> real \<Rightarrow> real \<Rightarrow> int \<Rightarrow> draw list
     \<Rightarrow> (error + (state \<times> action \<rightharpoonup> real)) option" where
  "Qlearner L G alpha epsilon num_robots ds =
     map_option (map_sum id Qvalues)
       (q_loop L G num_robots ((1 / 10) * alpha) ((1 / 10) * epsilon) ds
          (q_init L alpha epsilon num_robots))"

section \<open>Definitions used in the statements\<close>

text \<open>The entries of a transition list other than the stay-in-place entry: the
  candidate destinations that are on the grid and not blocked, each with its own
  probability.\<close>

definition kept :: "FrozenLake \<Rightarrow> state \<Rightarrow> action \<Rightarrow> (state \<times> real) list" where
  "kept L st a =
     (if obstructed L (success_cell a st) then [] else [(success_cell a st, success_prob L)])
     @ map (\<lambda>c. (c, (1 - success_prob L) / 2)) (filter (\<lambda>c. \<not> obstructed L c) (fail_cells a st))"

text \<open>A lake of three cells in a row, the target at the right end; the first scenario
  of the specification's testable properties.\<close>

definition lake3 :: FrozenLake where
  "lake3 = FrozenLake_init 3 1 (0, 0) {(2, 0)} {} {}"

text \<open>The same lake with its free states iterated in the opposite order.\<close>

definition lake3r :: FrozenLake where
  "lake3r = lake3\<lparr>states := rev (states lake3)\<rparr>"

text \<open>
  The Bellman expression as the specification writes it. \<open>terminalValue\<close> is the fixed
  reward of a target, hole or blocked destination and the previous table's entry of a
  free one; \<open>Q_spec\<close> is \<open>Q(s, a)\<close>, the sum over the transitions of
  \<open>p \<sqdot> (living_reward + \<gamma> \<sqdot> terminalValue)\<close>. Cell classes and rewards are those
  of \<open>L\<close>, transitions those of \<open>G\<close>.
\<close>

definition terminalValue :: "FrozenLake \<Rightarrow> (state \<rightharpoonup> real) \<Rightarrow> state \<Rightarrow> real" where
  "terminalValue L prev s' =
     (if s' \<in> targets L then target_reward L
      else if s' \<in> holes L then hole_reward L
      else if s' \<in> blocked L then 0
      else the (prev s'))"

definition Q_spec :: "FrozenLake \<Rightarrow> FrozenLake \<Rightarrow> (state \<rightharpoonup> real) \<Rightarrow> state \<Rightarrow> action \<Rightarrow> real" where
  "Q_spec L G prev s a =
     (\<Sum>(s', p) \<leftarrow> get_transitions G s a. p * (living_reward L + gamma L * terminalValue L prev s'))"

text \<open>The Bellman optimality value of a state: the maximum of \<open>Q(s, a)\<close> over the
  four actions.\<close>

definition bellman :: "FrozenLake \<Rightarrow> FrozenLake \<Rightarrow> (state \<rightharpoonup> real) \<Rightarrow> state \<Rightarrow> real" where
  "bellman L G prev s = Max (Q_spec L G prev s ` set actions)"

text \<open>The table of \<open>lake3r\<close> after one full sweep from the zero table.\<close>

definition table1 :: "state \<rightharpoonup> real" where
  "table1 = (zero_values lake3r)((1, 0) \<mapsto> 31 / 50, (0, 0) \<mapsto> - (1 / 10))"

text \<open>\<open>k\<close> is the index of the first occurrence of the maximum of \<open>ys\<close>.\<close>

definition first_max_index :: "real list \<Rightarrow> nat \<Rightarrow> bool" where
  "first_max_index ys k \<longleftrightarrow>
     k < length ys \<and> (\<forall>j < length ys. ys ! j \<le> ys ! k) \<and> (\<forall>j < k. ys ! j < ys ! k)"

text \<open>A lake of three by two cells, with the same target as \<open>lake3\<close>.\<close>

definition lake32 :: FrozenLake where
  "lake32 = FrozenLake_init 3 2 (0, 0) {(2, 0)} {} {}"

text \<open>The bootstrap term of the Q-learning update as the specification writes it.\<close>

definition bootstrap :: "FrozenLake \<Rightarrow> (state \<times> action \<rightharpoonup> real) \<Rightarrow> state \<Rightarrow> real" where
  "bootstrap L Q s' =
     (if s' \<in> targets L then target_reward L
      else if s' \<in> holes L then hole_reward L
      else Max ((\<lambda>a. the (Q (s', a))) ` set actions))"

text \<open>A lake of two cells: the start and, east of it, the target.\<close>

definition lake2 :: FrozenLake where
  "lake2 = FrozenLake_init 2 1 (0, 0) {(1, 0)} {} {}"

text \<open>A reading of the random source: the uniform draw is 0, the random action is
  east, and the move takes the first entry of the transition list.\<close>

definition d0 :: draw where
  "d0 = \<lparr>uniform = 0, choice = E, pick = 0\<rparr>"

text \<open>Two lakes with the same free states, cell classes, start state, discount and
  rewards; they may differ in width, height and success probability, which only the
  transition model reads.\<close>

definition same_cells :: "FrozenLake \<Rightarrow> FrozenLake \<Rightarrow> bool" where
  "same_cells L L' \<longleftrightarrow>
     states L = states L' \<and> targets L = targets L' \<and> holes L = holes L'
     \<and> blocked L = blocked L' \<and> initial_state L = initial_state L'
     \<and> gamma L = gamma L' \<and> hole_reward L = hole_reward L'
     \<and> target_reward L = target_reward L' \<and> living_reward L = living_reward L'"

text \<open>
  A trial as the specification describes it. \<open>follows L policy path ds\<close> says that
  \<open>path\<close> is the sequence of states of one rollout under the draws \<open>ds\<close>: each state
  but the last is neither a target nor a hole and is left by the move that the policy
  prescribes, and the last is a target or a hole. \<open>trial_reward\<close> is what the trial
  accumulates: \<open>living_reward\<close> for each step taken, and the reward of the terminal
  state. \<open>trials\<close> says that successive paths start at the start state and consume
  the draws one after the other.
\<close>

fun follows :: "FrozenLake \<Rightarrow> (state \<rightharpoonup> action) \<Rightarrow> state list \<Rightarrow> nat list \<Rightarrow> bool" where
  "follows L policy [] ds = False"
| "follows L policy [s] ds = (s \<in> targets L \<or> s \<in> holes L)"
| "follows L policy (s # s' # path) ds =
     (s \<notin> targets L \<and> s \<notin> holes L \<and>
      (case policy s of None \<Rightarrow> False
       | Some a \<Rightarrow>
          (case ds of [] \<Rightarrow> False
           | k # rest \<Rightarrow> move L s a k = Inr s' \<and> follows L policy (s' # path) rest)))"

definition trial_reward :: "FrozenLake \<Rightarrow> state list \<Rightarrow> real" where
  "trial_reward L path =
     real (length path - 1) * living_reward L
     + (if last path \<in> targets L then target_reward L else hole_reward L)"

fun trials :: "FrozenLake \<Rightarrow> (state \<rightharpoonup> action) \<Rightarrow> state list list \<Rightarrow> nat list \<Rightarrow> bool" where
  "trials L policy [] ds = True"
| "trials L policy (path # paths) ds =
     (path \<noteq> [] \<and> hd path = initial_state L \<and> follows L policy path ds
      \<and> trials L policy paths (drop (length path - 1) ds))"

text \<open>A lake of three cells in a row: a hole, the start, the target.\<close>

definition lake3h :: FrozenLake where
  "lake3h = FrozenLake_init 3 1 (1, 0) {(2, 0)} {} {(0, 0)}"

text \<open>
  A lake whose free states are those that the constructor computes from its width,
  height and cell sets, in any iteration order and with any numeric parameters.
\<close>

definition constructed :: "FrozenLake \<Rightarrow> bool" where
  "constructed L \<longleftrightarrow>
     set (states L)
       = set (states (FrozenLake_init (width L) (height L) (initial_state L)
                        (targets L) (blocked L) (holes L)))"

text \<open>
  \<open>Q(s, a)\<close> as the program computes it: the terms
  \<open>p \<sqdot> (living_reward + \<gamma> \<sqdot> v(s'))\<close> are added from left to right over the transition
  list that the rounded transition model of \<open>G\<close> returns, every operation rounded by
  \<open>rnd\<close>; \<open>v\<close> gives the value of a destination.
\<close>

definition Q_rounded ::
  "(real \<Rightarrow> real) \<Rightarrow> FrozenLake \<Rightarrow> FrozenLake \<Rightarrow> (state \<Rightarrow> real) \<Rightarrow> state \<Rightarrow> action \<Rightarrow> real" where
  "Q_rounded rnd L G v s a =
     foldl (\<lambda>acc (s', p). rnd (acc + rnd (p * rnd (living_reward L + rnd (gamma L * v s')))))
       0 (get_transitions_rnd rnd G s a)"

text \<open>The value of a destination in \<^verbatim>\<open>extract_policy\<close>: the fixed reward of a target or
  hole of the instance, and otherwise the entry of the value function.\<close>

definition state_value :: "FrozenLake \<Rightarrow> (state \<rightharpoonup> real) \<Rightarrow> state \<Rightarrow> real" where
  "state_value L vals s' =
     (if s' \<in> targets L then target_reward L
      else if s' \<in> holes L then hole_reward L
      else the (vals s'))"

text \<open>Every destination that the global lake's transitions give for the state \<open>s\<close> is
  a target or hole of the instance or has an entry in the value function.\<close>

definition ep_reads :: "(real \<Rightarrow> real) \<Rightarrow> FrozenLake \<Rightarrow> FrozenLake \<Rightarrow> (state \<rightharpoonup> real) \<Rightarrow> state \<Rightarrow> bool" where
  "ep_reads rnd L G vals s \<longleftrightarrow>
     list_all (\<lambda>a. list_all (\<lambda>(s', p). s' \<in> targets L \<or> s' \<in> holes L \<or> vals s' \<noteq> None)
                      (get_transitions_rnd rnd G s a)) actions"

text \<open>Two lakes with the same width, height, blocked cells and success probability:
  all that the transition model reads.\<close>

definition same_transition_model :: "FrozenLake \<Rightarrow> FrozenLake \<Rightarrow> bool" where
  "same_transition_model G G' \<longleftrightarrow>
     width G = width G' \<and> height G = height G' \<and> blocked G = blocked G'
     \<and> success_prob G = success_prob G'"

text \<open>
  A run of \<^verbatim>\<open>value_iteration\<close> as the sequence of its snapshots: each sweep but the last
  runs to its end and produces the next snapshot, and the last sweep returns its own.
\<close>

fun vi_chain :: "FrozenLake \<Rightarrow> FrozenLake \<Rightarrow> real \<Rightarrow> (state \<rightharpoonup> real) list \<Rightarrow> bool" where
  "vi_chain L G threshold [] = False"
| "vi_chain L G threshold [T] =
     (sweep L G threshold T (states L) T 0 = Inr (Returned T))"
| "vi_chain L G threshold (T # T' # Ts) =
     ((\<exists>delta. sweep L G threshold T (states L) T 0 = Inr (Completed T' delta))
      \<and> vi_chain L G threshold (T' # Ts))"

text \<open>
  A run of the loop of \<^verbatim>\<open>Qlearner\<close> as the sequence of its local states: each state but
  the last has robots left and is taken to the next by one iteration under the next
  draw, and the last has none left.
\<close>

fun q_chain ::
  "FrozenLake \<Rightarrow> FrozenLake \<Rightarrow> int \<Rightarrow> real \<Rightarrow> real \<Rightarrow> draw list \<Rightarrow> qstate list \<Rightarrow> bool" where
  "q_chain L G n fa fe ds [] = False"
| "q_chain L G n fa fe ds [q] = (\<not> robot_count q > 0)"
| "q_chain L G n fa fe ds (q # q' # qs) =
     (robot_count q > 0 \<and>
      (case ds of [] \<Rightarrow> False
       | d # ds' \<Rightarrow> q_step L G n fa fe d q = Inr q' \<and> q_chain L G n fa fe ds' (q' # qs)))"

text \<open>A coarse rounding: every result is rounded down to one decimal.\<close>

definition floor1 :: "real \<Rightarrow> real" where
  "floor1 x = of_int \<lfloor>10 * x\<rfloor> / 10"

text \<open>A reading of the random source that explores with the action south.\<close>

definition d_south :: draw where
  "d_south = \<lparr>uniform = 0, choice = S, pick = 0\<rparr>"

section \<open>Properties of the transition model\<close>

lemma states_init_iff:
  "(x, y) \<in> set (states (FrozenLake_init w h start tgts blkd hls)) \<longleftrightarrow>
     0 \<le> x \<and> x \<le> w - 1 \<and> 0 \<le> y \<and> y \<le> h - 1 \<and>
     (x, y) \<notin> tgts \<and> (x, y) \<notin> hls \<and> (x, y) \<notin> blkd"
  by (auto simp: FrozenLake_init_def)

lemma init_fields [simp]:
  "success_prob (FrozenLake_init w h start tgts blkd hls) = 8 / 10"
  "gamma (FrozenLake_init w h start tgts blkd hls) = 9 / 10"
  "hole_reward (FrozenLake_init w h start tgts blkd hls) = - 5"
  "target_reward (FrozenLake_init w h start tgts blkd hls) = 1"
  "living_reward (FrozenLake_init w h start tgts blkd hls) = - (1 / 10)"
  "width (FrozenLake_init w h start tgts blkd hls) = w"
  "height (FrozenLake_init w h start tgts blkd hls) = h"
  "targets (FrozenLake_init w h start tgts blkd hls) = tgts"
  "holes (FrozenLake_init w h start tgts blkd hls) = hls"
  "blocked (FrozenLake_init w h start tgts blkd hls) = blkd"
  "initial_state (FrozenLake_init w h start tgts blkd hls) = start"
  by (simp_all add: FrozenLake_init_def)

lemma free_not_obstructed:
  "st \<in> set (states (FrozenLake_init w h start tgts blkd hls)) \<Longrightarrow>
   \<not> obstructed (FrozenLake_init w h start tgts blkd hls) st"
  by (cases st) (auto simp: states_init_iff obstructed_def)

lemma fail_loop_eq:
  "fail_loop L cs result remain_p =
     (result @ map (\<lambda>c. (c, (1 - success_prob L) / 2)) (filter (\<lambda>c. \<not> obstructed L c) cs),
      remain_p + (\<Sum>c \<leftarrow> cs. if obstructed L c then (1 - success_prob L) / 2 else 0))"
  by (induction cs arbitrary: result remain_p) simp_all

lemma get_transitions_eq:
  "get_transitions L st a =
     (if remain_mass L st a > 0 then kept L st a @ [(st, remain_mass L st a)] else kept L st a)"
  by (simp add: get_transitions_def fail_loop_eq remain_mass_def kept_def Let_def)

lemma fail_cells_two: "\<exists>c1 c2. fail_cells a st = [c1, c2]"
  by (cases a; cases st) simp_all

lemma kept_mass:
  "sum_list (map snd (kept L st a)) + remain_mass L st a
     = success_prob L + 2 * ((1 - success_prob L) / 2)"
proof -
  obtain c1 c2 where fc: "fail_cells a st = [c1, c2]"
    using fail_cells_two by blast
  show ?thesis by (simp add: kept_def remain_mass_def fc)
qed

lemma remain_mass_nonneg:
  assumes "0 \<le> success_prob L" "success_prob L \<le> 1"
  shows "0 \<le> remain_mass L st a"
proof -
  obtain c1 c2 where fc: "fail_cells a st = [c1, c2]"
    using fail_cells_two by blast
  show ?thesis using assms by (simp add: remain_mass_def fc)
qed

lemma st_notin_kept: "st \<notin> fst ` set (kept L st a)"
  by (cases a; cases st) (auto simp: kept_def)

lemma kept_props:
  "(s', p) \<in> set (kept L st a) \<Longrightarrow>
     \<not> obstructed L s' \<and> (p = success_prob L \<or> p = (1 - success_prob L) / 2)"
  by (auto simp: kept_def split: if_splits)

lemma states_lake3: "states lake3 = [(0, 0), (1, 0)]"
  by (simp add: lake3_def FrozenLake_init_def upto_rec1)

lemma lake3_fields [simp]:
  "success_prob lake3 = 8 / 10" "gamma lake3 = 9 / 10" "hole_reward lake3 = - 5"
  "target_reward lake3 = 1" "living_reward lake3 = - (1 / 10)"
  "width lake3 = 3" "height lake3 = 1" "targets lake3 = {(2, 0)}" "holes lake3 = {}"
  "blocked lake3 = {}" "initial_state lake3 = (0, 0)"
  by (simp_all add: lake3_def)

lemma lake3_transitions:
  "get_transitions lake3 (0, 0) N = [((1, 0), 1 / 10), ((0, 0), 9 / 10)]"
  "get_transitions lake3 (0, 0) S = [((1, 0), 1 / 10), ((0, 0), 9 / 10)]"
  "get_transitions lake3 (0, 0) E = [((1, 0), 8 / 10), ((0, 0), 2 / 10)]"
  "get_transitions lake3 (0, 0) W = [((0, 0), 1)]"
  "get_transitions lake3 (1, 0) N = [((2, 0), 1 / 10), ((0, 0), 1 / 10), ((1, 0), 8 / 10)]"
  "get_transitions lake3 (1, 0) S = [((2, 0), 1 / 10), ((0, 0), 1 / 10), ((1, 0), 8 / 10)]"
  "get_transitions lake3 (1, 0) E = [((2, 0), 8 / 10), ((1, 0), 2 / 10)]"
  "get_transitions lake3 (1, 0) W = [((0, 0), 8 / 10), ((1, 0), 2 / 10)]"
  by (simp_all add: get_transitions_def obstructed_def)

lemma get_transitions_entries:
  assumes L: "L = FrozenLake_init w h start tgts blkd hls"
    and free: "st \<in> set (states L)"
    and mem: "(s', p) \<in> set (get_transitions L st a)"
  shows "0 < p \<and> \<not> obstructed L s'"
proof (cases "(s', p) \<in> set (kept L st a)")
  case True
  from kept_props [OF True] show ?thesis by (auto simp: L)
next
  case False
  have no: "\<not> obstructed L st" using free_not_obstructed free L by simp
  from False mem have "s' = st \<and> p = remain_mass L st a \<and> 0 < remain_mass L st a"
    by (auto simp: get_transitions_eq split: if_splits)
  with no show ?thesis by simp
qed

text \<open>Every successor of a free state is a target, a hole or a free state.\<close>

lemma successor_classes:
  assumes L: "L = FrozenLake_init w h start tgts blkd hls"
    and free: "st \<in> set (states L)"
    and mem: "(s', p) \<in> set (get_transitions L st a)"
  shows "s' \<in> targets L \<or> s' \<in> holes L \<or> s' \<in> set (states L)"
proof -
  obtain x y where s': "s' = (x, y)" by (cases s')
  from get_transitions_entries [OF L free mem] have "\<not> obstructed L (x, y)"
    by (simp add: s')
  then show ?thesis
    unfolding s' L by (auto simp: obstructed_def states_init_iff)
qed

lemma obstructed_cong:
  "width L = width L' \<Longrightarrow> height L = height L' \<Longrightarrow> blocked L = blocked L' \<Longrightarrow>
   obstructed L = obstructed L'"
  by (simp add: obstructed_def fun_eq_iff)

text \<open>The transition model reads the width, the height, the blocked cells and the
  success probability of its lake, and nothing else.\<close>

lemma get_transitions_cong:
  assumes "width L = width L'" "height L = height L'" "blocked L = blocked L'"
    "success_prob L = success_prob L'"
  shows "get_transitions L = get_transitions L'"
proof -
  have o: "obstructed L = obstructed L'"
    by (rule obstructed_cong) (rule assms)+
  show ?thesis
    unfolding fun_eq_iff get_transitions_eq remain_mass_def kept_def o assms(4) by simp
qed

lemma states_lake3r: "states lake3r = [(1, 0), (0, 0)]"
  by (simp add: lake3r_def states_lake3)

lemma gt_lake3r: "get_transitions lake3r = get_transitions lake3"
  by (rule get_transitions_cong) (simp_all add: lake3r_def)

lemma lake3r_fields [simp]:
  "targets lake3r = {(2, 0)}" "holes lake3r = {}" "blocked lake3r = {}"
  "gamma lake3r = 9 / 10" "living_reward lake3r = - (1 / 10)" "target_reward lake3r = 1"
  "hole_reward lake3r = - 5" "initial_state lake3r = (0, 0)"
  by (simp_all add: lake3r_def)

text \<open>
  C2. For a lake built by the constructor, a free state \<open>st\<close> and any of the four
  actions, every entry of \<open>get_transitions L st a\<close> has a positive probability and a
  successor that is on the grid and not blocked; the probabilities sum to exactly 1,
  which is \<open>success_prob + 2 \<sqdot> (1 - success_prob) / 2\<close>; and an entry for \<open>st\<close>
  itself is present exactly when the mass of the off-grid or blocked candidates is
  non-zero, in which case it carries exactly that mass.
\<close>

theorem get_transitions_distribution:
  assumes L: "L = FrozenLake_init w h start tgts blkd hls"
    and free: "st \<in> set (states L)"
  shows "(\<forall>(s', p) \<in> set (get_transitions L st a).
            0 < p \<and> 0 \<le> fst s' \<and> fst s' \<le> width L - 1 \<and> 0 \<le> snd s' \<and> snd s' \<le> height L - 1
            \<and> s' \<notin> blocked L)
       \<and> sum_list (map snd (get_transitions L st a)) = 1
       \<and> success_prob L + 2 * ((1 - success_prob L) / 2) = 1
       \<and> (\<forall>p. (st, p) \<in> set (get_transitions L st a) \<longleftrightarrow>
                 remain_mass L st a \<noteq> 0 \<and> p = remain_mass L st a)"
proof -
  have no: "\<not> obstructed L st" using free_not_obstructed free L by simp
  have sp: "success_prob L = 8 / 10" using L by simp
  have rm: "0 \<le> remain_mass L st a" by (rule remain_mass_nonneg) (simp_all add: sp)
  have total: "success_prob L + 2 * ((1 - success_prob L) / 2) = 1" by (simp add: sp)
  have sum1: "sum_list (map snd (get_transitions L st a)) = 1"
    using kept_mass [of L st a] rm total by (simp add: get_transitions_eq)
  have entries: "0 < p \<and> \<not> obstructed L s'" if "(s', p) \<in> set (get_transitions L st a)" for s' p
    using get_transitions_entries [OF L free that] .
  have stay: "(st, p) \<in> set (get_transitions L st a) \<longleftrightarrow>
                remain_mass L st a \<noteq> 0 \<and> p = remain_mass L st a" for p
  proof -
    have "(st, p) \<notin> set (kept L st a)"
      using st_notin_kept [of st L a] by force
    with rm show ?thesis by (auto simp: get_transitions_eq)
  qed
  have bounds: "0 < p \<and> 0 \<le> fst s' \<and> fst s' \<le> width L - 1 \<and> 0 \<le> snd s' \<and> snd s' \<le> height L - 1
            \<and> s' \<notin> blocked L" if "(s', p) \<in> set (get_transitions L st a)" for s' p
    using entries [OF that] by (auto simp: obstructed_def)
  from bounds sum1 total stay show ?thesis by blast
qed

theorem get_transitions_distribution_witness:
  "lake3 = FrozenLake_init 3 1 (0, 0) {(2, 0)} {} {}
   \<and> (0, 0) \<in> set (states lake3)
   \<and> ((1, 0), 8 / 10) \<in> set (get_transitions lake3 (0, 0) E)
   \<and> sum_list (map snd (get_transitions lake3 (0, 0) E)) = 1
   \<and> remain_mass lake3 (0, 0) E = 2 / 10
   \<and> ((0, 0), 2 / 10) \<in> set (get_transitions lake3 (0, 0) E)"
proof -
  have free: "(0, 0) \<in> set (states lake3)" by (simp add: states_lake3)
  have rm: "remain_mass lake3 (0, 0) E = 2 / 10"
    by (simp add: remain_mass_def obstructed_def)
  from get_transitions_distribution [OF lake3_def free, of E] rm free
  show ?thesis by (simp add: lake3_transitions lake3_def [symmetric])
qed

section \<open>Properties of value iteration\<close>

lemma s1_reward_terminalValue:
  "s1_reward L prev s' = Inr v \<Longrightarrow> v = terminalValue L prev s'"
  by (auto simp: s1_reward_def terminalValue_def split: if_splits option.splits)

lemma trans_sum_loop_spec:
  "trans_sum_loop L (s1_reward L prev) ts acc = Inr r \<Longrightarrow>
     r = acc + (\<Sum>(s', p) \<leftarrow> ts. p * (living_reward L + gamma L * terminalValue L prev s'))"
proof (induction ts arbitrary: acc)
  case Nil
  then show ?case by simp
next
  case (Cons t ts)
  obtain s1 p where t: "t = (s1, p)" by (cases t)
  from Cons.prems obtain v where v: "s1_reward L prev s1 = Inr v"
    and rest: "trans_sum_loop L (s1_reward L prev) ts
                 (acc + p * (living_reward L + gamma L * v)) = Inr r"
    by (auto simp: t split: sum.splits)
  from Cons.IH [OF rest] s1_reward_terminalValue [OF v] show ?case
    by (simp add: t)
qed

lemma action_loop_spec:
  "action_loop L G (s1_reward L prev) st as avs = Inr res \<Longrightarrow>
     res = avs @ map (Q_spec L G prev st) as"
proof (induction as arbitrary: avs)
  case Nil
  then show ?case by simp
next
  case (Cons a as)
  from Cons.prems obtain t where t: "trans_sum_loop L (s1_reward L prev) (get_transitions G st a) 0 = Inr t"
    and rest: "action_loop L G (s1_reward L prev) st as (avs @ [t]) = Inr res"
    by (auto split: sum.splits)
  from trans_sum_loop_spec [OF t] have "t = Q_spec L G prev st a"
    by (simp add: Q_spec_def)
  with Cons.IH [OF rest] show ?case by simp
qed

lemma foldl_max_Max: "foldl max x xs = Max (set (x # xs))"
  for x :: real
proof -
  have "(\<lambda>a s. max s a) = (max :: real \<Rightarrow> real \<Rightarrow> real)"
    by (simp add: fun_eq_iff max.commute)
  then show ?thesis using Max.set_eq_fold [of x xs] by (simp add: foldl_conv_fold)
qed

lemma py_max_Max: "py_max xs = Inr m \<Longrightarrow> xs \<noteq> [] \<and> m = Max (set xs)"
  by (cases xs) (simp_all add: foldl_max_Max del: foldl_Cons)

lemma state_update_spec:
  assumes "action_loop L G (s1_reward L prev) st actions [] = Inr avs" "py_max avs = Inr m"
  shows "m = bellman L G prev st"
proof -
  from action_loop_spec [OF assms(1)] have "avs = map (Q_spec L G prev st) actions" by simp
  with py_max_Max [OF assms(2)] show ?thesis by (simp add: bellman_def)
qed

lemma sweep_completed:
  "sweep L G threshold prev ss vals delta = Inr (Completed vals' delta') \<Longrightarrow>
     (\<forall>s. vals' s = (if s \<in> set ss then Some (bellman L G prev s) else vals s))"
proof (induction ss arbitrary: vals delta)
  case Nil
  then show ?case by simp
next
  case (Cons st rest)
  from Cons.prems obtain avs m old where
    avs: "action_loop L G (s1_reward L prev) st actions [] = Inr avs"
    and m: "py_max avs = Inr m"
    and old: "prev st = Some old"
    and rest: "sweep L G threshold prev rest (vals(st \<mapsto> m)) (max delta \<bar>m - old\<bar>)
                 = Inr (Completed vals' delta')"
    by (auto simp: Let_def split: sum.splits option.splits if_splits)
  from state_update_spec [OF avs m] have mb: "m = bellman L G prev st" .
  from Cons.IH [OF rest] mb show ?case by auto
qed

lemma sweep_no_return:
  "threshold \<le> delta \<Longrightarrow> sweep L G threshold values1 ss vals delta \<noteq> Inr (Returned v)"
proof (induction ss arbitrary: vals delta)
  case Nil
  then show ?case by simp
next
  case (Cons st rest)
  show ?case
  proof (cases "action_loop L G (s1_reward L values1) st actions []")
    case (Inl e)
    then show ?thesis by simp
  next
    case (Inr avs)
    show ?thesis
    proof (cases "py_max avs")
      case (Inl e)
      with Inr show ?thesis by simp
    next
      case mx: (Inr m)
      show ?thesis
      proof (cases "values1 st")
        case None
        with Inr mx show ?thesis by simp
      next
        case (Some old)
        have le: "threshold \<le> max delta \<bar>m - old\<bar>" using Cons.prems by simp
        from Cons.IH [OF le] Inr mx Some Cons.prems show ?thesis by (auto simp: Let_def)
      qed
    qed
  qed
qed

lemma vi_loop_no_return:
  "threshold \<le> 0 \<Longrightarrow> vi_loop fuel L G threshold vals \<noteq> Some (Inr v)"
proof (induction fuel arbitrary: vals)
  case 0
  then show ?case by simp
next
  case (Suc fuel)
  from sweep_no_return [OF Suc.prems] Suc.IH [OF Suc.prems]
  show ?case by (auto split: sum.splits sweep_result.splits)
qed

text \<open>The return is decided by the first state of the iteration order alone.\<close>

lemma sweep_returns_at_head:
  assumes "sweep L G threshold prev (st # rest) vals 0 = Inr (Returned v)"
  shows "v = prev \<and> (\<exists>old. prev st = Some old \<and> \<bar>bellman L G prev st - old\<bar> < threshold)"
proof -
  from assms obtain avs m old where
    avs: "action_loop L G (s1_reward L prev) st actions [] = Inr avs"
    and m: "py_max avs = Inr m"
    and old: "prev st = Some old"
    and r: "(if \<bar>m - old\<bar> < threshold then Inr (Returned prev)
             else sweep L G threshold prev rest (vals(st \<mapsto> m)) \<bar>m - old\<bar>)
            = Inr (Returned v)"
    by (auto simp: Let_def split: sum.splits option.splits)
  have lt: "\<bar>m - old\<bar> < threshold"
  proof (rule ccontr)
    assume "\<not> \<bar>m - old\<bar> < threshold"
    then have le: "threshold \<le> \<bar>m - old\<bar>" by simp
    with r sweep_no_return [OF le] show False by auto
  qed
  with r have "v = prev" by simp
  moreover from lt state_update_spec [OF avs m] have "\<bar>bellman L G prev st - old\<bar> < threshold"
    by simp
  ultimately show ?thesis using old by simp
qed

lemma s1_reward_defined:
  assumes L: "L = FrozenLake_init w h start tgts blkd hls"
    and free: "st \<in> set (states L)"
    and mem: "(s', p) \<in> set (get_transitions L st a)"
    and dom: "\<forall>s \<in> set (states L). prev s \<noteq> None"
  shows "\<exists>v. s1_reward L prev s' = Inr v"
  using successor_classes [OF L free mem] dom
  by (auto simp: s1_reward_def split: option.splits)

lemma trans_sum_loop_total:
  "\<forall>(s', p) \<in> set ts. \<exists>v. rw s' = Inr v \<Longrightarrow> \<exists>r. trans_sum_loop L rw ts acc = Inr r"
proof (induction ts arbitrary: acc)
  case Nil
  then show ?case by simp
next
  case (Cons t ts)
  obtain s1 p where t: "t = (s1, p)" by (cases t)
  from Cons.prems obtain v where v: "rw s1 = Inr v" by (auto simp: t)
  from Cons.prems have "\<forall>(s', p) \<in> set ts. \<exists>v. rw s' = Inr v" by simp
  from Cons.IH [OF this] v show ?case by (simp add: t)
qed

lemma action_loop_total:
  "\<forall>a \<in> set as. \<forall>(s', p) \<in> set (get_transitions G st a). \<exists>v. rw s' = Inr v \<Longrightarrow>
     \<exists>res. action_loop L G rw st as avs = Inr res \<and> length res = length avs + length as"
proof (induction as arbitrary: avs)
  case Nil
  then show ?case by simp
next
  case (Cons a as)
  from Cons.prems have "\<forall>(s', p) \<in> set (get_transitions G st a). \<exists>v. rw s' = Inr v" by simp
  from trans_sum_loop_total [OF this] obtain t where
    t: "trans_sum_loop L rw (get_transitions G st a) 0 = Inr t" by blast
  from Cons.prems have "\<forall>a \<in> set as. \<forall>(s', p) \<in> set (get_transitions G st a). \<exists>v. rw s' = Inr v"
    by simp
  from Cons.IH [OF this, of "avs @ [t]"] t show ?case by simp
qed

lemma sweep_total:
  assumes L: "L = FrozenLake_init w h start tgts blkd hls"
    and dom: "\<forall>s \<in> set (states L). prev s \<noteq> None"
  shows "set ss \<subseteq> set (states L) \<Longrightarrow> sweep L L threshold prev ss vals delta \<noteq> Inl e"
proof (induction ss arbitrary: vals delta)
  case Nil
  then show ?case by simp
next
  case (Cons st rest)
  from Cons.prems have free: "st \<in> set (states L)" and sub: "set rest \<subseteq> set (states L)"
    by simp_all
  have "\<forall>a \<in> set actions. \<forall>(s', p) \<in> set (get_transitions L st a). \<exists>v. s1_reward L prev s' = Inr v"
    using s1_reward_defined [OF L free _ dom] by blast
  from action_loop_total [OF this, of L "[]"] obtain avs where
    avs: "action_loop L L (s1_reward L prev) st actions [] = Inr avs"
    and len: "length avs = length actions" by auto
  from len obtain m where m: "py_max avs = Inr m"
    by (cases avs) (simp_all add: actions_def)
  from dom free obtain old where old: "prev st = Some old" by auto
  from Cons.IH [OF sub] avs m old show ?case by (simp add: Let_def)
qed

lemma vi_loop_total:
  assumes L: "L = FrozenLake_init w h start tgts blkd hls"
  shows "\<forall>s \<in> set (states L). vals s \<noteq> None \<Longrightarrow> vi_loop fuel L L threshold vals \<noteq> Some (Inl e)"
proof (induction fuel arbitrary: vals)
  case 0
  then show ?case by simp
next
  case (Suc fuel)
  show ?case
  proof (cases "sweep L L threshold vals (states L) vals 0")
    case (Inl e')
    with sweep_total [OF L Suc.prems subset_refl] show ?thesis by blast
  next
    case (Inr r)
    show ?thesis
    proof (cases r)
      case (Returned v)
      with Inr show ?thesis by simp
    next
      case (Completed vals' d')
      with Inr sweep_completed have "\<forall>s \<in> set (states L). vals' s \<noteq> None" by fastforce
      from Suc.IH [OF this] Inr Completed show ?thesis by simp
    qed
  qed
qed

lemma zero_values_defined: "s \<in> set (states L) \<Longrightarrow> zero_values L s = Some 0"
  by (simp add: zero_values_def map_of_map_restrict restrict_map_def)

lemma value_iteration_total:
  "value_iteration fuel (FrozenLake_init w h start tgts blkd hls)
     (FrozenLake_init w h start tgts blkd hls) threshold \<noteq> Some (Inl e)"
  unfolding value_iteration_def
  by (rule vi_loop_total [OF refl]) (simp add: zero_values_defined)

lemma zero3 [simp]: "zero_values lake3 (0, 0) = Some 0" "zero_values lake3 (1, 0) = Some 0"
  by (simp_all add: zero_values_def states_lake3)

lemma zero3r [simp]: "zero_values lake3r (0, 0) = Some 0" "zero_values lake3r (1, 0) = Some 0"
  by (simp_all add: zero_values_def states_lake3r)

lemma table1_simps [simp]: "table1 (1, 0) = Some (31 / 50)" "table1 (0, 0) = Some (- (1 / 10))"
  by (simp_all add: table1_def)

lemma lake3_first_sweep_00:
  "action_loop lake3 lake3 (s1_reward lake3 (zero_values lake3)) (0, 0) actions []
     = Inr [- (1 / 10), - (1 / 10), - (1 / 10), - (1 / 10)]"
  by (simp add: actions_def lake3_transitions s1_reward_def)

lemma lake3_first_sweep_10:
  "action_loop lake3 lake3 (s1_reward lake3 (zero_values lake3)) (1, 0) actions []
     = Inr [- (1 / 100), - (1 / 100), 31 / 50, - (1 / 10)]"
  by (simp add: actions_def lake3_transitions s1_reward_def)

lemma lake3_full_sweep:
  "sweep lake3 lake3 0 (zero_values lake3) (states lake3) (zero_values lake3) 0
     = Inr (Completed ((zero_values lake3)((0, 0) \<mapsto> - (1 / 10), (1, 0) \<mapsto> 31 / 50)) (31 / 50))"
  by (simp add: states_lake3 lake3_first_sweep_00 lake3_first_sweep_10)

lemma lake3r_first_sweep_10:
  "action_loop lake3r lake3r (s1_reward lake3r (zero_values lake3r)) (1, 0) actions []
     = Inr [- (1 / 100), - (1 / 100), 31 / 50, - (1 / 10)]"
  by (simp add: actions_def gt_lake3r lake3_transitions s1_reward_def)

lemma lake3r_first_sweep_00:
  "action_loop lake3r lake3r (s1_reward lake3r (zero_values lake3r)) (0, 0) actions []
     = Inr [- (1 / 10), - (1 / 10), - (1 / 10), - (1 / 10)]"
  by (simp add: actions_def gt_lake3r lake3_transitions s1_reward_def)

lemma lake3r_first_sweep:
  "sweep lake3r lake3r (1 / 5) (zero_values lake3r) [(1, 0), (0, 0)] (zero_values lake3r) 0
     = Inr (Completed table1 (31 / 50))"
  by (simp add: lake3r_first_sweep_00 lake3r_first_sweep_10 table1_def)

lemma lake3r_second_sweep_10:
  "action_loop lake3r lake3r (s1_reward lake3r table1) (1, 0) actions []
     = Inr [2137 / 5000, 2137 / 5000, 1829 / 2500, - (151 / 2500)]"
  by (simp add: actions_def gt_lake3r lake3_transitions s1_reward_def)

lemma lake3r_second_sweep_00:
  "action_loop lake3r lake3r (s1_reward lake3r table1) (0, 0) actions []
     = Inr [- (313 / 2500), - (313 / 2500), 821 / 2500, - (19 / 100)]"
  by (simp add: actions_def gt_lake3r lake3_transitions s1_reward_def)

lemma lake3r_full_second_sweep:
  "sweep lake3r lake3r 0 table1 (states lake3r) table1 0
     = Inr (Completed (table1((1, 0) \<mapsto> 1829 / 2500, (0, 0) \<mapsto> 821 / 2500)) (1071 / 2500))"
  by (simp add: states_lake3r lake3r_second_sweep_10 lake3r_second_sweep_00)

text \<open>
  C1. The claim is that \<open>value_iteration\<close> returns only after a full sweep over every
  free state, with \<open>delta\<close> the maximum change over all of them. The test
  \<^verbatim>\<open>if delta < threshold: return values1\<close> sits inside the loop over the states, so the
  source returns as soon as the first state of the sweep has changed by less than the
  threshold (lemma \<open>sweep_returns_at_head\<close>). On the three-cell lake with threshold
  \<open>1/5\<close>: iterating \<open>(0,0)\<close> first, the run returns the zero table in its first sweep,
  although the same sweep run to its end has \<open>delta = 31/50\<close>; iterating \<open>(1,0)\<close>
  first, it returns in its second sweep, although that sweep run to its end has
  \<open>delta = 1071/2500\<close>. In both runs the table returned is the snapshot taken before
  the last sweep.
\<close>

theorem value_iteration_returns_inside_sweep:
  "value_iteration 1 lake3 lake3 (1 / 5) = Some (Inr (zero_values lake3))
   \<and> sweep lake3 lake3 0 (zero_values lake3) (states lake3) (zero_values lake3) 0
       = Inr (Completed ((zero_values lake3)((0, 0) \<mapsto> - (1 / 10), (1, 0) \<mapsto> 31 / 50)) (31 / 50))
   \<and> value_iteration 2 lake3r lake3r (1 / 5) = Some (Inr table1)
   \<and> sweep lake3r lake3r 0 table1 (states lake3r) table1 0
       = Inr (Completed (table1((1, 0) \<mapsto> 1829 / 2500, (0, 0) \<mapsto> 821 / 2500)) (1071 / 2500))"
proof -
  have a: "value_iteration 1 lake3 lake3 (1 / 5) = Some (Inr (zero_values lake3))"
    by (simp add: value_iteration_def states_lake3 lake3_first_sweep_00)
  have b: "value_iteration 2 lake3r lake3r (1 / 5) = Some (Inr table1)"
    by (simp add: value_iteration_def numeral_2_eq_2 lake3r_first_sweep states_lake3r
          del: sweep.simps) (simp add: lake3r_second_sweep_10)
  from a b lake3_full_sweep lake3r_full_second_sweep show ?thesis by simp
qed

text \<open>
  C3. In a sweep that starts from the snapshot \<open>prev\<close>, the value assigned to every
  state \<open>s\<close> of the sweep is the maximum over the four actions of
  \<open>Q(s, a) = \<Sum> p \<sqdot> (living_reward + \<gamma> \<sqdot> v(s'))\<close> over the transitions \<open>(s', p)\<close>
  of \<open>(s, a)\<close>, where \<open>v(s')\<close> is the target reward, the hole reward, 0 for a blocked
  cell, and otherwise the entry of \<open>s'\<close> in \<open>prev\<close>: the table being updated is never
  read.
\<close>

theorem sweep_assigns_bellman_max:
  assumes "sweep L G threshold prev ss vals delta = Inr (Completed vals' delta')"
    and "s \<in> set ss"
  shows "vals' s = Some (Max ((\<lambda>a. \<Sum>(s', p) \<leftarrow> get_transitions G s a.
                                 p * (living_reward L + gamma L * terminalValue L prev s'))
                              ` {N, S, E, W}))"
proof -
  from sweep_completed [OF assms(1)] assms(2) have "vals' s = Some (bellman L G prev s)"
    by metis
  moreover have "set actions = {N, S, E, W}" by (simp add: actions_def)
  ultimately show ?thesis unfolding bellman_def Q_spec_def [abs_def] by simp
qed

theorem sweep_assigns_bellman_max_witness:
  "sweep lake3 lake3 0 (zero_values lake3) (states lake3) (zero_values lake3) 0
     = Inr (Completed ((zero_values lake3)((0, 0) \<mapsto> - (1 / 10), (1, 0) \<mapsto> 31 / 50)) (31 / 50))
   \<and> (1, 0) \<in> set (states lake3)
   \<and> Some (31 / 50) = Some (Max ((\<lambda>a. \<Sum>(s', p) \<leftarrow> get_transitions lake3 (1, 0) a.
              p * (living_reward lake3 + gamma lake3 * terminalValue lake3 (zero_values lake3) s'))
            ` {N, S, E, W}))"
proof -
  have mem: "(1, 0) \<in> set (states lake3)" by (simp add: states_lake3)
  from sweep_assigns_bellman_max [OF lake3_full_sweep mem] lake3_full_sweep mem
  show ?thesis by simp
qed

text \<open>
  C8. With a threshold that is zero or negative, no run of \<open>value_iteration\<close>
  returns a table, however many sweeps it is given: \<open>delta\<close> is never negative, so the
  test \<open>delta < threshold\<close> never succeeds.
\<close>

theorem value_iteration_nonpositive_threshold:
  "threshold \<le> 0 \<Longrightarrow> value_iteration fuel L G threshold \<noteq> Some (Inr v)"
  unfolding value_iteration_def by (rule vi_loop_no_return)

theorem value_iteration_nonpositive_threshold_witness:
  "(0 :: real) \<le> 0 \<and> value_iteration 1 lake3 lake3 0 = None
   \<and> value_iteration 1 lake3 lake3 0 \<noteq> Some (Inr (zero_values lake3))"
proof -
  have "value_iteration 1 lake3 lake3 0 = None"
    by (simp add: value_iteration_def lake3_full_sweep del: sweep.simps)
  with value_iteration_nonpositive_threshold [of 0 1 lake3 lake3 "zero_values lake3"]
  show ?thesis by simp
qed

section \<open>Properties of policy extraction\<close>

lemma fail_loop_rnd_id:
  "fail_loop_rnd (\<lambda>x. x) L cs result remain_p = fail_loop L cs result remain_p"
  by (induction cs arbitrary: result remain_p) simp_all

text \<open>With exact arithmetic the rounded transition model is \<open>get_transitions\<close>.\<close>

lemma get_transitions_rnd_id: "get_transitions_rnd (\<lambda>x. x) L st a = get_transitions L st a"
  by (simp add: get_transitions_rnd_def get_transitions_def fail_loop_rnd_id)

lemma fail_loop_rnd_successors:
  "fst ` set (fst (fail_loop_rnd rnd L cs result remain_p))
     = fst ` set result \<union> {c \<in> set cs. \<not> obstructed L c}"
  by (induction cs arbitrary: result remain_p) auto

lemma get_transitions_rnd_successor:
  assumes "(s', p) \<in> set (get_transitions_rnd rnd L st a)"
  shows "s' = st \<or> \<not> obstructed L s'"
proof -
  let ?init = "if obstructed L (success_cell a st) then ([], rnd (0 + success_prob L))
               else ([(success_cell a st, success_prob L)], 0 :: real)"
  let ?fl = "fail_loop_rnd rnd L (fail_cells a st) (fst ?init) (snd ?init)"
  from assms have "s' = st \<or> s' \<in> fst ` set (fst ?fl)"
    by (auto simp: get_transitions_rnd_def Let_def split_beta split: if_splits intro: rev_image_eqI)
  then show ?thesis
    unfolding fail_loop_rnd_successors by (auto split: if_splits)
qed

lemma constructed_iff:
  "constructed L \<Longrightarrow>
     (c \<in> set (states L) \<longleftrightarrow> \<not> obstructed L c \<and> c \<notin> targets L \<and> c \<notin> holes L)"
  by (cases c) (auto simp: constructed_def states_init_iff obstructed_def)

lemma constructed_init: "constructed (FrozenLake_init w h start tgts blkd hls)"
  by (simp add: constructed_def)

text \<open>Every successor of a free state, under any rounding, is a target, a hole or a
  free state.\<close>

lemma successor_classes_rnd:
  assumes "constructed L" "st \<in> set (states L)"
    and "(s', p) \<in> set (get_transitions_rnd rnd L st a)"
  shows "s' \<in> targets L \<or> s' \<in> holes L \<or> s' \<in> set (states L)"
  using get_transitions_rnd_successor [OF assms(3)] assms(2)
  by (auto simp: constructed_iff [OF assms(1)])

lemma first_max_index_unique:
  "first_max_index ys k \<Longrightarrow> first_max_index ys k' \<Longrightarrow> k = k'"
  unfolding first_max_index_def
  by (metis linorder_neqE_nat not_less)

lemma argmax_loop_spec:
  assumes "i = length pre" "bi < i" "best = pre ! bi"
    "\<forall>j < i. pre ! j \<le> best" "\<forall>j < bi. pre ! j < best"
  shows "first_max_index (pre @ xs) (argmax_loop xs i best bi)"
  using assms
proof (induction xs arbitrary: pre i best bi)
  case Nil
  then show ?case by (simp add: first_max_index_def)
next
  case (Cons x xs)
  show ?case
  proof (cases "x > best")
    case True
    have "first_max_index ((pre @ [x]) @ xs) (argmax_loop xs (Suc i) x i)"
    proof (rule Cons.IH)
      show "Suc i = length (pre @ [x])" using Cons.prems by simp
      show "i < Suc i" by simp
      show "x = (pre @ [x]) ! i" using Cons.prems by simp
      show "\<forall>j < Suc i. (pre @ [x]) ! j \<le> x"
        using Cons.prems True by (auto simp: nth_append less_Suc_eq intro: less_imp_le order_le_less_trans)
      show "\<forall>j < i. (pre @ [x]) ! j < x"
        using Cons.prems True by (auto simp: nth_append intro: order_le_less_trans)
    qed
    with True show ?thesis by simp
  next
    case False
    have "first_max_index ((pre @ [x]) @ xs) (argmax_loop xs (Suc i) best bi)"
    proof (rule Cons.IH)
      show "Suc i = length (pre @ [x])" using Cons.prems by simp
      show "bi < Suc i" using Cons.prems by simp
      show "best = (pre @ [x]) ! bi" using Cons.prems by (simp add: nth_append)
      show "\<forall>j < Suc i. (pre @ [x]) ! j \<le> best"
        using Cons.prems False by (auto simp: nth_append less_Suc_eq)
      show "\<forall>j < bi. (pre @ [x]) ! j < best"
        using Cons.prems by (auto simp: nth_append)
    qed
    with False show ?thesis by simp
  qed
qed

lemma argmax_spec: "ys \<noteq> [] \<Longrightarrow> \<exists>k. argmax ys = Inr k \<and> first_max_index ys k"
proof (cases ys)
  case Nil
  assume "ys \<noteq> []"
  with Nil show ?thesis by simp
next
  case (Cons x xs)
  have "first_max_index ([x] @ xs) (argmax_loop xs 1 x 0)"
    by (rule argmax_loop_spec) simp_all
  with Cons show ?thesis by simp
qed

lemma trans_sum_loop_rnd_map:
  "\<forall>(s', p) \<in> set ts. rw s' = Inr (f s') \<Longrightarrow>
     trans_sum_loop_rnd rnd L rw ts acc
       = Inr (foldl (\<lambda>acc (s', p).
                 rnd (acc + rnd (p * rnd (living_reward L + rnd (gamma L * f s'))))) acc ts)"
proof (induction ts arbitrary: acc)
  case Nil
  then show ?case by simp
next
  case (Cons t ts)
  obtain s1 p where t: "t = (s1, p)" by (cases t)
  from Cons.prems have v: "rw s1 = Inr (f s1)" by (simp add: t)
  from Cons.prems have "\<forall>(s', p) \<in> set ts. rw s' = Inr (f s')" by simp
  from Cons.IH [OF this] v show ?case by (simp add: t)
qed

lemma trans_sum_loop_rnd_reads:
  "trans_sum_loop_rnd rnd L rw ts acc = Inr r \<Longrightarrow> \<forall>(s', p) \<in> set ts. \<exists>v. rw s' = Inr v"
proof (induction ts arbitrary: acc)
  case Nil
  then show ?case by simp
next
  case (Cons t ts)
  obtain s1 p where t: "t = (s1, p)" by (cases t)
  from Cons.prems obtain v where v: "rw s1 = Inr v"
    and rest: "trans_sum_loop_rnd rnd L rw ts
                 (rnd (acc + rnd (p * rnd (living_reward L + rnd (gamma L * v))))) = Inr r"
    by (auto simp: t split: sum.splits)
  from Cons.IH [OF rest] v show ?case by (simp add: t)
qed

lemma action_loop_rnd_map:
  "\<forall>a \<in> set as. \<forall>(s', p) \<in> set (get_transitions_rnd rnd G st a). rw s' = Inr (f s') \<Longrightarrow>
     action_loop_rnd rnd L G rw st as avs = Inr (avs @ map (Q_rounded rnd L G f st) as)"
proof (induction as arbitrary: avs)
  case Nil
  then show ?case by simp
next
  case (Cons a as)
  from Cons.prems have "\<forall>(s', p) \<in> set (get_transitions_rnd rnd G st a). rw s' = Inr (f s')"
    by simp
  from trans_sum_loop_rnd_map [OF this, of rnd L 0]
  have t: "trans_sum_loop_rnd rnd L rw (get_transitions_rnd rnd G st a) 0
             = Inr (Q_rounded rnd L G f st a)"
    by (simp add: Q_rounded_def)
  from Cons.prems
  have "\<forall>a \<in> set as. \<forall>(s', p) \<in> set (get_transitions_rnd rnd G st a). rw s' = Inr (f s')"
    by simp
  from Cons.IH [OF this] t show ?case by simp
qed

lemma action_loop_rnd_reads:
  "action_loop_rnd rnd L G rw st as avs = Inr res \<Longrightarrow>
     \<forall>a \<in> set as. \<forall>(s', p) \<in> set (get_transitions_rnd rnd G st a). \<exists>v. rw s' = Inr v"
proof (induction as arbitrary: avs)
  case Nil
  then show ?case by simp
next
  case (Cons a as)
  from Cons.prems obtain t where
    t: "trans_sum_loop_rnd rnd L rw (get_transitions_rnd rnd G st a) 0 = Inr t"
    and rest: "action_loop_rnd rnd L G rw st as (avs @ [t]) = Inr res"
    by (auto split: sum.splits)
  from trans_sum_loop_rnd_reads [OF t] Cons.IH [OF rest] show ?case by simp
qed

lemma state_reward_iff:
  "(\<exists>v. state_reward L vals s' = Inr v) \<longleftrightarrow> s' \<in> targets L \<or> s' \<in> holes L \<or> vals s' \<noteq> None"
  by (auto simp: state_reward_def split: option.splits)

lemma state_reward_value:
  "s' \<in> targets L \<or> s' \<in> holes L \<or> vals s' \<noteq> None \<Longrightarrow>
     state_reward L vals s' = Inr (state_value L vals s')"
  by (auto simp: state_reward_def state_value_def split: option.splits)

lemma ep_reads_iff:
  "ep_reads rnd L G vals s \<longleftrightarrow>
     (\<forall>a \<in> set actions. \<forall>(s', p) \<in> set (get_transitions_rnd rnd G s a).
         s' \<in> targets L \<or> s' \<in> holes L \<or> vals s' \<noteq> None)"
  by (simp add: ep_reads_def list_all_iff)

lemma extract_action_sum:
  assumes "ep_reads rnd L G vals st"
  shows "action_loop_rnd rnd L G (state_reward L vals) st actions []
           = Inr (map (Q_rounded rnd L G (state_value L vals) st) actions)"
proof -
  have "\<forall>a \<in> set actions. \<forall>(s', p) \<in> set (get_transitions_rnd rnd G st a).
          state_reward L vals s' = Inr (state_value L vals s')"
    using assms state_reward_value unfolding ep_reads_iff by fast
  from action_loop_rnd_map [OF this, of L "[]"] show ?thesis by simp
qed

lemma extract_action_sum_reads:
  assumes "action_loop_rnd rnd L G (state_reward L vals) st actions [] = Inr res"
  shows "ep_reads rnd L G vals st"
  using action_loop_rnd_reads [OF assms] state_reward_iff [of L vals]
  unfolding ep_reads_iff by fast

lemma ep_loop_returns:
  "\<forall>s \<in> set ss. ep_reads rnd L G vals s \<Longrightarrow>
     \<exists>pol'. ep_loop rnd L G vals ss pol = Inr pol'
       \<and> (\<forall>s \<in> set ss. \<exists>k. first_max_index
                               (map (Q_rounded rnd L G (state_value L vals) s) actions) k
                        \<and> pol' s = Some (actions ! k))
       \<and> (\<forall>s. s \<notin> set ss \<longrightarrow> pol' s = pol s)"
proof (induction ss arbitrary: pol)
  case Nil
  then show ?case by simp
next
  case (Cons st rest)
  let ?Q = "\<lambda>s. map (Q_rounded rnd L G (state_value L vals) s) actions"
  from Cons.prems have rd: "ep_reads rnd L G vals st"
    and rds: "\<forall>s \<in> set rest. ep_reads rnd L G vals s" by simp_all
  note sum = extract_action_sum [OF rd]
  have "?Q st \<noteq> []" by (simp add: actions_def)
  from argmax_spec [OF this] obtain k where
    k: "argmax (?Q st) = Inr k" and fm: "first_max_index (?Q st) k" by blast
  from fm have klt: "k < length actions" by (simp add: first_max_index_def)
  from Cons.IH [OF rds, of "pol(st \<mapsto> actions ! k)"] obtain pol' where
    run: "ep_loop rnd L G vals rest (pol(st \<mapsto> actions ! k)) = Inr pol'"
    and inside: "\<And>s. s \<in> set rest \<Longrightarrow>
            \<exists>k. first_max_index (?Q s) k \<and> pol' s = Some (actions ! k)"
    and outside: "\<And>s. s \<notin> set rest \<Longrightarrow> pol' s = (pol(st \<mapsto> actions ! k)) s" by blast
  have "ep_loop rnd L G vals (st # rest) pol = Inr pol'"
    using sum k klt run by simp
  moreover have "\<exists>k. first_max_index (?Q s) k \<and> pol' s = Some (actions ! k)"
    if "s \<in> set (st # rest)" for s
  proof (cases "s \<in> set rest")
    case True
    then show ?thesis by (rule inside)
  next
    case False
    with that have "s = st" by simp
    with outside [OF False] fm show ?thesis by auto
  qed
  moreover have "pol' s = pol s" if "s \<notin> set (st # rest)" for s
    using that outside [of s] by simp
  ultimately show ?case by blast
qed

lemma ep_loop_reads:
  "ep_loop rnd L G vals ss pol = Inr pol' \<Longrightarrow> \<forall>s \<in> set ss. ep_reads rnd L G vals s"
proof (induction ss arbitrary: pol)
  case Nil
  then show ?case by simp
next
  case (Cons st rest)
  from Cons.prems obtain res k where
    sum: "action_loop_rnd rnd L G (state_reward L vals) st actions [] = Inr res"
    and rest: "ep_loop rnd L G vals rest (pol(st \<mapsto> actions ! k)) = Inr pol'"
    by (auto split: sum.splits if_splits)
  from extract_action_sum_reads [OF sum] Cons.IH [OF rest] show ?case by simp
qed

text \<open>What \<^verbatim>\<open>extract_policy\<close> returns, for any instance, global lake and rounding.\<close>

lemma extract_policy_iff:
  "extract_policy rnd L G vals = Inr pol \<longleftrightarrow>
     (\<forall>s \<in> set (states L). ep_reads rnd L G vals s)
     \<and> (\<forall>s \<in> set (states L). \<exists>k. first_max_index
                               (map (Q_rounded rnd L G (state_value L vals) s) actions) k
                        \<and> pol s = Some (actions ! k))
     \<and> (\<forall>s. s \<notin> set (states L) \<longrightarrow> pol s = None)"
  (is "?lhs \<longleftrightarrow> ?rd \<and> ?in pol \<and> ?out pol")
proof
  assume run: ?lhs
  then have rd: ?rd unfolding extract_policy_def by (rule ep_loop_reads)
  from ep_loop_returns [OF rd, of Map.empty] run
  show "?rd \<and> ?in pol \<and> ?out pol" unfolding extract_policy_def using rd by auto
next
  assume r: "?rd \<and> ?in pol \<and> ?out pol"
  then have rd: ?rd and inp: "?in pol" and outp: "?out pol" by blast+
  from ep_loop_returns [OF rd, of Map.empty] obtain pol' where
    run: "ep_loop rnd L G vals (states L) Map.empty = Inr pol'"
    and in': "?in pol'" and out': "?out pol'" by auto
  have "pol' s = pol s" for s
  proof (cases "s \<in> set (states L)")
    case True
    from inp True obtain k where
      fm: "first_max_index (map (Q_rounded rnd L G (state_value L vals) s) actions) k"
      and pk: "pol s = Some (actions ! k)" by blast
    from in' True obtain k' where
      fm': "first_max_index (map (Q_rounded rnd L G (state_value L vals) s) actions) k'"
      and pk': "pol' s = Some (actions ! k')" by blast
    from first_max_index_unique [OF fm fm'] pk pk' show ?thesis by simp
  next
    case False
    with outp out' show ?thesis by metis
  qed
  then have "pol' = pol" by (simp add: fun_eq_iff)
  with run show ?lhs by (simp add: extract_policy_def)
qed

lemma Q_rounded_cong:
  assumes "\<forall>(s', p) \<in> set (get_transitions_rnd rnd G s a). v s' = v' s'"
  shows "Q_rounded rnd L G v s a = Q_rounded rnd L G v' s a"
proof -
  have "\<forall>(s', p) \<in> set ts. v s' = v' s' \<Longrightarrow>
          foldl (\<lambda>acc (s', p). rnd (acc + rnd (p * rnd (living_reward L + rnd (gamma L * v s')))))
            acc ts
        = foldl (\<lambda>acc (s', p). rnd (acc + rnd (p * rnd (living_reward L + rnd (gamma L * v' s')))))
            acc ts" for ts acc
    by (induction ts arbitrary: acc) auto
  from this [OF assms] show ?thesis by (simp add: Q_rounded_def)
qed

text \<open>With exact arithmetic \<open>Q_rounded\<close> is the sum \<open>Q_spec\<close>.\<close>

lemma Q_rounded_id:
  "Q_rounded (\<lambda>x. x) L G (terminalValue L prev) s a = Q_spec L G prev s a"
proof -
  have "foldl (\<lambda>acc (s', p). acc + p * (living_reward L + gamma L * v s')) acc ts
          = acc + (\<Sum>(s', p) \<leftarrow> ts. p * (living_reward L + gamma L * v s'))"
    for ts acc and v :: "state \<Rightarrow> real"
    by (induction ts arbitrary: acc) (auto simp: algebra_simps)
  then show ?thesis
    by (simp add: Q_rounded_def Q_spec_def get_transitions_rnd_id [abs_def])
qed

lemma ep_reads_constructed:
  assumes L: "constructed L" and free: "st \<in> set (states L)"
    and dom: "\<forall>s \<in> set (states L). vals s \<noteq> None"
  shows "ep_reads rnd L L vals st"
  unfolding ep_reads_iff
  using successor_classes_rnd [OF L free] dom by blast

lemma Q_rounded_free:
  assumes L: "constructed L" and free: "st \<in> set (states L)"
  shows "Q_rounded rnd L L (state_value L vals) st a
           = Q_rounded rnd L L (terminalValue L vals) st a"
proof (rule Q_rounded_cong, clarify)
  fix s' p assume "(s', p) \<in> set (get_transitions_rnd rnd L st a)"
  from successor_classes_rnd [OF L free this]
  have "s' \<in> targets L \<or> s' \<in> holes L \<or> s' \<notin> blocked L"
    by (auto simp: constructed_iff [OF L] obstructed_def)
  then show "state_value L vals s' = terminalValue L vals s'"
    by (auto simp: state_value_def terminalValue_def)
qed

text \<open>
  C4. For a constructed lake, a value function defined on all its free states and any
  rounding of the arithmetic, \<open>extract_policy\<close> returns a policy that gives every free
  state an action whose recomputed \<open>Q(s, a)\<close>, as the program computes it, is maximal
  among the four actions and strictly greater than that of every action earlier in the
  order \<open>n, s, e, w\<close>. The result does not depend on the order in which the states are
  iterated, and the function reads no random source, so extracting twice yields the
  same policy.
\<close>

theorem extract_policy_first_argmax:
  assumes L: "constructed L"
    and dom: "\<forall>s \<in> set (states L). vals s \<noteq> None"
  shows "\<exists>pol. extract_policy rnd L L vals = Inr pol
           \<and> (\<forall>s \<in> set (states L). \<exists>k < 4. pol s = Some ([N, S, E, W] ! k)
                 \<and> (\<forall>j < 4. Q_rounded rnd L L (terminalValue L vals) s ([N, S, E, W] ! j)
                              \<le> Q_rounded rnd L L (terminalValue L vals) s ([N, S, E, W] ! k))
                 \<and> (\<forall>j < k. Q_rounded rnd L L (terminalValue L vals) s ([N, S, E, W] ! j)
                              < Q_rounded rnd L L (terminalValue L vals) s ([N, S, E, W] ! k)))
           \<and> (\<forall>ss. set ss = set (states L) \<longrightarrow> ep_loop rnd L L vals ss Map.empty = Inr pol)"
proof -
  let ?Q = "\<lambda>s a. Q_rounded rnd L L (terminalValue L vals) s a"
  have rd: "\<forall>s \<in> set (states L). ep_reads rnd L L vals s"
    using ep_reads_constructed [OF L _ dom] by blast
  from ep_loop_returns [OF rd, of Map.empty] obtain pol where
    run: "ep_loop rnd L L vals (states L) Map.empty = Inr pol"
    and inside: "\<And>s. s \<in> set (states L) \<Longrightarrow>
            \<exists>k. first_max_index (map (Q_rounded rnd L L (state_value L vals) s) actions) k
                \<and> pol s = Some (actions ! k)"
    and outside: "\<And>s. s \<notin> set (states L) \<Longrightarrow> pol s = None" by auto
  have fmq: "first_max_index (map (Q_rounded rnd L L (state_value L vals) s) actions) k
               \<longleftrightarrow> first_max_index (map (?Q s) actions) k" if "s \<in> set (states L)" for s k
  proof -
    have "Q_rounded rnd L L (state_value L vals) s = Q_rounded rnd L L (terminalValue L vals) s"
      using Q_rounded_free [OF L that] by (simp add: fun_eq_iff)
    then show ?thesis by simp
  qed
  have char: "\<exists>k < 4. pol s = Some ([N, S, E, W] ! k)
                 \<and> (\<forall>j < 4. ?Q s ([N, S, E, W] ! j) \<le> ?Q s ([N, S, E, W] ! k))
                 \<and> (\<forall>j < k. ?Q s ([N, S, E, W] ! j) < ?Q s ([N, S, E, W] ! k))"
    if free: "s \<in> set (states L)" for s
  proof -
    from inside [OF free] fmq [OF free] obtain k where
      fm: "first_max_index (map (?Q s) actions) k"
      and pk: "pol s = Some (actions ! k)" by blast
    have len: "length actions = 4" by (simp add: actions_def)
    from fm have k4: "k < 4" by (simp add: first_max_index_def len)
    have le: "?Q s (actions ! j) \<le> ?Q s (actions ! k)" if "j < 4" for j
    proof -
      from fm that have "map (?Q s) actions ! j \<le> map (?Q s) actions ! k"
        by (simp add: first_max_index_def len del: nth_map)
      with that k4 show ?thesis by (simp add: len)
    qed
    have lt: "?Q s (actions ! j) < ?Q s (actions ! k)" if "j < k" for j
    proof -
      from fm that have "map (?Q s) actions ! j < map (?Q s) actions ! k"
        by (simp add: first_max_index_def del: nth_map)
      with that k4 show ?thesis by (simp add: len)
    qed
    from k4 pk le lt show ?thesis unfolding actions_def by blast
  qed
  have order: "ep_loop rnd L L vals ss Map.empty = Inr pol" if ss: "set ss = set (states L)" for ss
  proof -
    from rd ss have rd2: "\<forall>s \<in> set ss. ep_reads rnd L L vals s" by simp
    from ep_loop_returns [OF rd2, of Map.empty] obtain pol2 where
      run2: "ep_loop rnd L L vals ss Map.empty = Inr pol2"
      and inside2: "\<And>s. s \<in> set ss \<Longrightarrow>
            \<exists>k. first_max_index (map (Q_rounded rnd L L (state_value L vals) s) actions) k
                \<and> pol2 s = Some (actions ! k)"
      and outside2: "\<And>s. s \<notin> set ss \<Longrightarrow> pol2 s = None" by auto
    have "pol2 s = pol s" for s
    proof (cases "s \<in> set (states L)")
      case True
      from inside [OF True] obtain k where
        fm: "first_max_index (map (Q_rounded rnd L L (state_value L vals) s) actions) k"
        and pk: "pol s = Some (actions ! k)" by blast
      from True ss inside2 [of s] obtain k2 where
        fm2: "first_max_index (map (Q_rounded rnd L L (state_value L vals) s) actions) k2"
        and pk2: "pol2 s = Some (actions ! k2)" by blast
      from first_max_index_unique [OF fm fm2] pk pk2 show ?thesis by simp
    next
      case False
      with outside [OF False] outside2 [of s] ss show ?thesis by simp
    qed
    then have "pol2 = pol" by (simp add: fun_eq_iff)
    with run2 show ?thesis by simp
  qed
  from run char order show ?thesis unfolding extract_policy_def by blast
qed

lemma lake3_extract_00:
  "action_loop_rnd (\<lambda>x. x) lake3 lake3 (state_reward lake3 (zero_values lake3)) (0, 0) actions []
     = Inr [- (1 / 10), - (1 / 10), - (1 / 10), - (1 / 10)]"
  by (simp add: actions_def get_transitions_rnd_id lake3_transitions state_reward_def)

lemma lake3_extract_10:
  "action_loop_rnd (\<lambda>x. x) lake3 lake3 (state_reward lake3 (zero_values lake3)) (1, 0) actions []
     = Inr [- (1 / 100), - (1 / 100), 31 / 50, - (1 / 10)]"
  by (simp add: actions_def get_transitions_rnd_id lake3_transitions state_reward_def)

lemma lake3_extract:
  "extract_policy (\<lambda>x. x) lake3 lake3 (zero_values lake3) = Inr [(0, 0) \<mapsto> N, (1, 0) \<mapsto> E]"
  by (simp add: extract_policy_def states_lake3 lake3_extract_00 lake3_extract_10)
     (simp add: actions_def)

lemma lake3_transitions_floor1:
  "get_transitions_rnd floor1 lake3 (0, 0) N = [((1, 0), 1 / 10), ((0, 0), 9 / 10)]"
  "get_transitions_rnd floor1 lake3 (0, 0) S = [((1, 0), 1 / 10), ((0, 0), 9 / 10)]"
  "get_transitions_rnd floor1 lake3 (0, 0) E = [((1, 0), 8 / 10), ((0, 0), 2 / 10)]"
  "get_transitions_rnd floor1 lake3 (0, 0) W = [((0, 0), 1)]"
  "get_transitions_rnd floor1 lake3 (1, 0) N = [((2, 0), 1 / 10), ((0, 0), 1 / 10), ((1, 0), 8 / 10)]"
  "get_transitions_rnd floor1 lake3 (1, 0) S = [((2, 0), 1 / 10), ((0, 0), 1 / 10), ((1, 0), 8 / 10)]"
  "get_transitions_rnd floor1 lake3 (1, 0) E = [((2, 0), 8 / 10), ((1, 0), 2 / 10)]"
  "get_transitions_rnd floor1 lake3 (1, 0) W = [((0, 0), 8 / 10), ((1, 0), 2 / 10)]"
  by (simp_all add: get_transitions_rnd_def obstructed_def floor1_def)

lemma lake3_extract_floor1_00:
  "action_loop_rnd floor1 lake3 lake3 (state_reward lake3 (zero_values lake3)) (0, 0) actions []
     = Inr [- (1 / 5), - (1 / 5), - (1 / 5), - (1 / 10)]"
  by (simp add: actions_def lake3_transitions_floor1 state_reward_def floor1_def)

lemma lake3_extract_floor1_10:
  "action_loop_rnd floor1 lake3 lake3 (state_reward lake3 (zero_values lake3)) (1, 0) actions []
     = Inr [- (1 / 5), - (1 / 5), 1 / 2, - (1 / 5)]"
  by (simp add: actions_def lake3_transitions_floor1 state_reward_def floor1_def)

text \<open>Rounding can decide the choice: with every result rounded down to one decimal,
  the four sums at the start of \<open>lake3\<close> are no longer equal, and west is chosen where
  exact arithmetic chooses north.\<close>

lemma lake3_extract_floor1:
  "extract_policy floor1 lake3 lake3 (zero_values lake3) = Inr [(0, 0) \<mapsto> W, (1, 0) \<mapsto> E]"
  by (simp add: extract_policy_def states_lake3 lake3_extract_floor1_00 lake3_extract_floor1_10)
     (simp add: actions_def)

lemma constructed_lake3: "constructed lake3"
  unfolding lake3_def by (rule constructed_init)

lemma zero_values_dom: "\<forall>s \<in> set (states L). zero_values L s \<noteq> None"
  by (simp add: zero_values_defined)

theorem extract_policy_first_argmax_witness:
  "states lake3 = [(0, 0), (1, 0)]
   \<and> zero_values lake3 (0, 0) = Some 0 \<and> zero_values lake3 (1, 0) = Some 0
   \<and> (\<exists>pol. extract_policy (\<lambda>x. x) lake3 lake3 (zero_values lake3) = Inr pol
          \<and> pol (0, 0) = Some N \<and> pol (1, 0) = Some E
          \<and> ep_loop (\<lambda>x. x) lake3 lake3 (zero_values lake3) [(1, 0), (0, 0)] Map.empty = Inr pol)
   \<and> (\<exists>pol. extract_policy floor1 lake3 lake3 (zero_values lake3) = Inr pol
          \<and> pol (0, 0) = Some W \<and> pol (1, 0) = Some E)"
proof -
  note dom = zero_values_dom [of lake3]
  from extract_policy_first_argmax [OF constructed_lake3 dom, of "\<lambda>x. x"] obtain pol where
    run: "extract_policy (\<lambda>x. x) lake3 lake3 (zero_values lake3) = Inr pol"
    and order: "\<forall>ss. set ss = set (states lake3) \<longrightarrow>
                  ep_loop (\<lambda>x. x) lake3 lake3 (zero_values lake3) ss Map.empty = Inr pol" by blast
  have "set [(1, 0), (0, 0)] = set (states lake3)"
    by (auto simp: states_lake3)
  with order
  have "ep_loop (\<lambda>x. x) lake3 lake3 (zero_values lake3) [(1, 0), (0, 0)] Map.empty = Inr pol"
    by blast
  moreover from run lake3_extract have "pol (0, 0) = Some N \<and> pol (1, 0) = Some E" by auto
  moreover from extract_policy_first_argmax [OF constructed_lake3 dom, of floor1] lake3_extract_floor1
  have "\<exists>pol. extract_policy floor1 lake3 lake3 (zero_values lake3) = Inr pol
          \<and> pol (0, 0) = Some W \<and> pol (1, 0) = Some E" by auto
  ultimately show ?thesis using run states_lake3 by auto
qed

text \<open>
  C10. \<open>extract_policy\<close> has no branch for blocked destinations, yet on a value
  function defined on all free states it never faults: every successor that
  \<open>get_transitions\<close> returns for a free state, in exact or in rounded arithmetic, is a
  target, a hole or a free state, so the lookup in the value function never fails. The
  methods are run on the lake that the global binding names, as the program does.
\<close>

theorem extract_policy_never_faults:
  assumes L: "constructed L"
    and dom: "\<forall>s \<in> set (states L). vals s \<noteq> None"
  shows "(\<forall>s \<in> set (states L). \<forall>a. \<forall>(s', p) \<in> set (get_transitions L s a).
            (s' \<in> targets L \<or> s' \<in> holes L \<or> s' \<in> set (states L))
            \<and> state_reward L vals s' \<noteq> Inl KeyError)
         \<and> (\<forall>s \<in> set (states L). \<forall>a. \<forall>(s', p) \<in> set (get_transitions_rnd rnd L s a).
            (s' \<in> targets L \<or> s' \<in> holes L \<or> s' \<in> set (states L))
            \<and> state_reward L vals s' \<noteq> Inl KeyError)
         \<and> (\<exists>pol. extract_policy rnd L L vals = Inr pol)"
proof -
  have succ: "(s' \<in> targets L \<or> s' \<in> holes L \<or> s' \<in> set (states L))
            \<and> state_reward L vals s' \<noteq> Inl KeyError"
    if "s \<in> set (states L)" "(s', p) \<in> set (get_transitions_rnd r L s a)" for s a s' p r
  proof -
    from successor_classes_rnd [OF L that]
    have cl: "s' \<in> targets L \<or> s' \<in> holes L \<or> s' \<in> set (states L)" .
    with dom have "s' \<in> targets L \<or> s' \<in> holes L \<or> vals s' \<noteq> None" by auto
    from state_reward_value [of s' L vals, OF this] cl show ?thesis by simp
  qed
  have exact: "(s' \<in> targets L \<or> s' \<in> holes L \<or> s' \<in> set (states L))
            \<and> state_reward L vals s' \<noteq> Inl KeyError"
    if "s \<in> set (states L)" "(s', p) \<in> set (get_transitions L s a)" for s a s' p
    using succ [of s s' p "\<lambda>x. x" a] that by (simp add: get_transitions_rnd_id)
  have rd: "\<forall>s \<in> set (states L). ep_reads rnd L L vals s"
    using ep_reads_constructed [OF L _ dom] by blast
  from ep_loop_returns [OF rd, of Map.empty]
  have "\<exists>pol. extract_policy rnd L L vals = Inr pol"
    unfolding extract_policy_def by blast
  with succ [where r = rnd] exact show ?thesis by blast
qed

theorem extract_policy_never_faults_witness:
  "states lake3 = [(0, 0), (1, 0)]
   \<and> zero_values lake3 (0, 0) = Some 0 \<and> zero_values lake3 (1, 0) = Some 0
   \<and> ((1, 0), 8 / 10) \<in> set (get_transitions lake3 (0, 0) E)
   \<and> (1, 0) \<in> set (states lake3)
   \<and> extract_policy (\<lambda>x. x) lake3 lake3 (zero_values lake3)
       = Inr [(0, 0) \<mapsto> N, (1, 0) \<mapsto> E]"
proof -
  note dom = zero_values_dom [of lake3]
  from extract_policy_never_faults [OF constructed_lake3 dom, of "\<lambda>x. x"] dom lake3_extract
  show ?thesis by (simp add: lake3_transitions states_lake3)
qed

section \<open>Properties of Q-learning\<close>

lemma avm_loop_spec:
  "avm_loop Q st as acc = Inr res \<Longrightarrow>
     res = acc @ map (\<lambda>a. (a, the (Q (st, a)))) as \<and> (\<forall>a \<in> set as. Q (st, a) \<noteq> None)"
proof (induction as arbitrary: acc)
  case Nil
  then show ?case by simp
next
  case (Cons a as)
  from Cons.prems obtain v where v: "Q (st, a) = Some v"
    and rest: "avm_loop Q st as (acc @ [(a, v)]) = Inr res"
    by (auto split: option.splits)
  from Cons.IH [OF rest] v show ?case by simp
qed

lemma avm_loop_total:
  "\<forall>a \<in> set as. Q (st, a) \<noteq> None \<Longrightarrow>
     avm_loop Q st as acc = Inr (acc @ map (\<lambda>a. (a, the (Q (st, a)))) as)"
  by (induction as arbitrary: acc) auto

lemma max_key_loop_spec:
  "snd (max_key_loop items best) = Max (snd ` set (best # items))
   \<and> max_key_loop items best \<in> set (best # items)"
proof (induction items arbitrary: best)
  case Nil
  then show ?case by simp
next
  case (Cons item items)
  obtain a v where item: "item = (a, v)" by (cases item)
  show ?case
  proof (cases "v > snd best")
    case True
    have "Max (snd ` set (best # (a, v) # items)) = Max (snd ` set ((a, v) # items))"
    proof (cases "items = []")
      case True
      with \<open>v > snd best\<close> show ?thesis by (simp add: max_def)
    next
      case False
      then have ne: "snd ` set items \<noteq> {}" by simp
      have "Max (insert (snd best) (insert v (snd ` set items)))
              = max (snd best) (max v (Max (snd ` set items)))"
        using ne by (simp add: Max_insert)
      also have "\<dots> = max v (Max (snd ` set items))"
        using True by (simp add: max_def)
      also have "\<dots> = Max (insert v (snd ` set items))"
        using ne by (simp add: Max_insert)
      finally show ?thesis by simp
    qed
    with Cons.IH [of "(a, v)"] True show ?thesis by (auto simp: item)
  next
    case False
    have "Max (snd ` set (best # (a, v) # items)) = Max (snd ` set (best # items))"
    proof (cases "items = []")
      case True
      with False show ?thesis by (simp add: max_def)
    next
      case ne0: False
      then have ne: "snd ` set items \<noteq> {}" by simp
      have "Max (insert (snd best) (insert v (snd ` set items)))
              = max (snd best) (max v (Max (snd ` set items)))"
        using ne by (simp add: Max_insert)
      also have "\<dots> = max (snd best) (Max (snd ` set items))"
        using False by (simp add: max_def)
      also have "\<dots> = Max (insert (snd best) (snd ` set items))"
        using ne by (simp add: Max_insert)
      finally show ?thesis by simp
    qed
    with Cons.IH [of best] False show ?thesis by (auto simp: item)
  qed
qed

lemma get_best_action_value_spec:
  assumes "get_best_action_value Q st = Inr best"
  shows "snd best = Max ((\<lambda>a. the (Q (st, a))) ` set actions)
         \<and> Q (st, fst best) = Some (snd best) \<and> (\<forall>a \<in> set actions. Q (st, a) \<noteq> None)"
proof -
  from assms obtain item items where
    run: "avm_loop Q st actions [] = Inr (item # items)"
    and best: "best = max_key_loop items item"
    by (auto simp: get_best_action_value_def split: sum.splits list.splits)
  from avm_loop_spec [OF run] have
    items: "item # items = map (\<lambda>a. (a, the (Q (st, a)))) actions"
    and dom: "\<forall>a \<in> set actions. Q (st, a) \<noteq> None" by simp_all
  from max_key_loop_spec [of items item] best have
    mx: "snd best = Max (snd ` set (item # items))" and mem: "best \<in> set (item # items)"
    by simp_all
  have "snd ` set (item # items) = (\<lambda>a. the (Q (st, a))) ` set actions"
    unfolding items by (simp add: image_image)
  with mx have "snd best = Max ((\<lambda>a. the (Q (st, a))) ` set actions)" by simp
  moreover from mem obtain a where "a \<in> set actions" "best = (a, the (Q (st, a)))"
    unfolding items by auto
  with dom have "Q (st, fst best) = Some (snd best)" by auto
  ultimately show ?thesis using dom by simp
qed

lemma anneal_keeps:
  "anneal num_robots fa fe q = Inr q' \<Longrightarrow>
     Qvalues q' = Qvalues q \<and> cur_state q' = cur_state q \<and> robot_count q' = robot_count q"
  by (auto simp: anneal_def split: if_splits)

lemma q_step_result:
  assumes step: "q_step L G num_robots final_alpha final_epsilon d q = Inr q'"
  shows "\<exists>best chosen next old.
      get_best_action_value (Qvalues q) (cur_state q) = Inr best
      \<and> chosen = (if uniform d < current_epsilon q then choice d else fst best)
      \<and> move G (cur_state q) chosen (pick d) = Inr next
      \<and> Qvalues q (cur_state q, chosen) = Some old
      \<and> Qvalues q' = (Qvalues q)((cur_state q, chosen) \<mapsto>
            (1 - current_alpha q) * old
            + current_alpha q * (living_reward L + gamma L * bootstrap L (Qvalues q) next))
      \<and> (if next \<in> targets L \<or> next \<in> holes L
          then robot_count q' = robot_count q - 1 \<and> cur_state q' = initial_state L
          else robot_count q' = robot_count q \<and> cur_state q' = next)"
proof -
  from step obtain best where
    gb: "get_best_action_value (Qvalues q) (cur_state q) = Inr best"
    by (auto simp: q_step_def split: sum.splits)
  define chosen where "chosen = (if uniform d < current_epsilon q then choice d else fst best)"
  from step gb obtain "next" where
    mv: "move G (cur_state q) chosen (pick d) = Inr next"
    by (auto simp: q_step_def chosen_def Let_def split: sum.splits)
  from step gb mv obtain old where
    old: "Qvalues q (cur_state q, chosen) = Some old"
    by (auto simp: q_step_def chosen_def Let_def split: sum.splits option.splits)
  let ?upd = "\<lambda>b. (Qvalues q)((cur_state q, chosen) \<mapsto>
            (1 - current_alpha q) * old + current_alpha q * (living_reward L + gamma L * b))"
  have "Qvalues q' = ?upd (bootstrap L (Qvalues q) next)
      \<and> (if next \<in> targets L \<or> next \<in> holes L
          then robot_count q' = robot_count q - 1 \<and> cur_state q' = initial_state L
          else robot_count q' = robot_count q \<and> cur_state q' = next)"
  proof (cases "next \<in> targets L")
    case True
    with step gb mv old have
      "anneal num_robots final_alpha final_epsilon
         (q\<lparr> Qvalues := ?upd (target_reward L), cur_state := initial_state L,
              robot_count := robot_count q - 1 \<rparr>) = Inr q'"
      by (simp add: q_step_def chosen_def Let_def)
    from anneal_keeps [OF this] True show ?thesis by (simp add: bootstrap_def)
  next
    case nt: False
    show ?thesis
    proof (cases "next \<in> holes L")
      case True
      with step gb mv old nt have
        "anneal num_robots final_alpha final_epsilon
           (q\<lparr> Qvalues := ?upd (hole_reward L), cur_state := initial_state L,
                robot_count := robot_count q - 1 \<rparr>) = Inr q'"
        by (simp add: q_step_def chosen_def Let_def)
      from anneal_keeps [OF this] True nt show ?thesis by (simp add: bootstrap_def)
    next
      case nh: False
      from step gb mv old nt nh obtain best' where
        gb': "get_best_action_value (Qvalues q) next = Inr best'"
        and an: "anneal num_robots final_alpha final_epsilon
           (q\<lparr> Qvalues := ?upd (snd best'), cur_state := next \<rparr>) = Inr q'"
        by (auto simp: q_step_def chosen_def Let_def split: sum.splits)
      from get_best_action_value_spec [OF gb'] nt nh
      have "snd best' = bootstrap L (Qvalues q) next" by (simp add: bootstrap_def)
      with anneal_keeps [OF an] nt nh show ?thesis by simp
    qed
  qed
  with gb mv old show ?thesis unfolding chosen_def by blast
qed

text \<open>
  C5. A step of the Q-learning loop that completes changes exactly one entry of the
  table, that of the current state and the chosen action, to
  \<open>(1 - \<alpha>) \<sqdot> Q(s, chosen) + \<alpha> \<sqdot> (living_reward + \<gamma> \<sqdot> bootstrap)\<close>, where \<open>\<alpha>\<close> is the
  current learning rate and \<open>bootstrap\<close> is the target reward if the sampled next state
  is a target, the hole reward if it is a hole, and otherwise the maximum over the
  actions of the current table at the next state. Exactly when the next state is a
  target or a hole, the remaining budget decreases by 1 and the current state is reset
  to the start state; otherwise the budget is unchanged and the trajectory continues
  from the next state.
\<close>

theorem q_step_update:
  assumes step: "q_step L G num_robots final_alpha final_epsilon d q = Inr q'"
  shows "\<exists>best chosen next old.
      get_best_action_value (Qvalues q) (cur_state q) = Inr best
      \<and> chosen = (if uniform d < current_epsilon q then choice d else fst best)
      \<and> move G (cur_state q) chosen (pick d) = Inr next
      \<and> Qvalues q (cur_state q, chosen) = Some old
      \<and> Qvalues q' = (Qvalues q)((cur_state q, chosen) \<mapsto>
            (1 - current_alpha q) * old
            + current_alpha q * (living_reward L + gamma L * bootstrap L (Qvalues q) next))
      \<and> (if next \<in> targets L \<or> next \<in> holes L
          then robot_count q' = robot_count q - 1 \<and> cur_state q' = initial_state L
          else robot_count q' = robot_count q \<and> cur_state q' = next)"
  using step by (rule q_step_result)

lemma states_lake2: "states lake2 = [(0, 0)]"
  by (simp add: lake2_def FrozenLake_init_def upto_rec1)

lemma lake2_fields [simp]:
  "success_prob lake2 = 8 / 10" "gamma lake2 = 9 / 10" "hole_reward lake2 = - 5"
  "target_reward lake2 = 1" "living_reward lake2 = - (1 / 10)"
  "width lake2 = 2" "height lake2 = 1" "targets lake2 = {(1, 0)}" "holes lake2 = {}"
  "blocked lake2 = {}" "initial_state lake2 = (0, 0)"
  by (simp_all add: lake2_def)

lemma lake2_transitions:
  "get_transitions lake2 (0, 0) N = [((1, 0), 1 / 10), ((0, 0), 9 / 10)]"
  "get_transitions lake2 (0, 0) S = [((1, 0), 1 / 10), ((0, 0), 9 / 10)]"
  "get_transitions lake2 (0, 0) E = [((1, 0), 8 / 10), ((0, 0), 2 / 10)]"
  "get_transitions lake2 (0, 0) W = [((0, 0), 1)]"
  by (simp_all add: get_transitions_def obstructed_def)

lemma q_init_lake3:
  "Qvalues (q_init lake3 al ep n) ((0, 0), a) = Some 0"
  "Qvalues (q_init lake3 al ep n) ((1, 0), a) = Some 0"
  "cur_state (q_init lake3 al ep n) = (0, 0)"
  "robot_count (q_init lake3 al ep n) = n"
  "current_alpha (q_init lake3 al ep n) = al"
  "current_epsilon (q_init lake3 al ep n) = ep"
  by (cases a; simp add: q_init_def states_lake3 actions_def)+

lemma gb_init_lake3:
  "get_best_action_value (Qvalues (q_init lake3 al ep n)) (0, 0) = Inr (N, 0)"
  "get_best_action_value (Qvalues (q_init lake3 al ep n)) (1, 0) = Inr (N, 0)"
  by (simp_all add: get_best_action_value_def actions_def q_init_lake3)

lemma lake3_step:
  "q_step lake3 lake3 60 (6 / 100) (6 / 100) \<lparr>uniform = 1, choice = E, pick = 0\<rparr>
     (q_init lake3 (6 / 10) (6 / 10) 60)
   = Inr ((q_init lake3 (6 / 10) (6 / 10) 60)
            \<lparr> Qvalues := (Qvalues (q_init lake3 (6 / 10) (6 / 10) 60))(((0, 0), N) \<mapsto> - (3 / 50)),
               cur_state := (1, 0) \<rparr>)"
  by (simp add: q_step_def gb_init_lake3 q_init_lake3 move_def lake3_transitions anneal_def)

theorem q_step_update_witness:
  "q_step lake3 lake3 60 (6 / 100) (6 / 100) \<lparr>uniform = 1, choice = E, pick = 0\<rparr>
     (q_init lake3 (6 / 10) (6 / 10) 60)
   = Inr ((q_init lake3 (6 / 10) (6 / 10) 60)
            \<lparr> Qvalues := (Qvalues (q_init lake3 (6 / 10) (6 / 10) 60))(((0, 0), N) \<mapsto> - (3 / 50)),
               cur_state := (1, 0) \<rparr>)
   \<and> get_best_action_value (Qvalues (q_init lake3 (6 / 10) (6 / 10) 60)) (0, 0) = Inr (N, 0)
   \<and> move lake3 (0, 0) N 0 = Inr (1, 0)
   \<and> (1 - 6 / 10) * 0 + (6 / 10) * (living_reward lake3 + gamma lake3 *
         bootstrap lake3 (Qvalues (q_init lake3 (6 / 10) (6 / 10) 60)) (1, 0)) = - (3 / 50 :: real)"
proof -
  from q_step_update [OF lake3_step] obtain best chosen "next" old where
    "get_best_action_value (Qvalues (q_init lake3 (6 / 10) (6 / 10) 60)) (0, 0) = Inr best"
    "chosen = fst best" "move lake3 (0, 0) chosen 0 = Inr next"
    by (auto simp: q_init_lake3)
  then have "move lake3 (0, 0) N 0 = Inr (1, 0)"
    by (simp add: gb_init_lake3 move_def lake3_transitions)
  moreover have "bootstrap lake3 (Qvalues (q_init lake3 (6 / 10) (6 / 10) 60)) (1, 0) = 0"
    by (simp add: bootstrap_def q_init_lake3 actions_def)
  ultimately show ?thesis using lake3_step by (simp add: gb_init_lake3)
qed

lemma q_init_lake2:
  "Qvalues (q_init lake2 al ep n) ((0, 0), a) = Some 0"
  "cur_state (q_init lake2 al ep n) = (0, 0)"
  "robot_count (q_init lake2 al ep n) = n"
  "current_alpha (q_init lake2 al ep n) = al"
  "current_epsilon (q_init lake2 al ep n) = ep"
  by (cases a; simp add: q_init_def states_lake2 actions_def)+

lemma gb_lake2:
  assumes "Q ((0, 0), N) = Some 0" "Q ((0, 0), S) = Some 0" "Q ((0, 0), E) = Some v"
    "Q ((0, 0), W) = Some 0" "0 \<le> v"
  shows "get_best_action_value Q (0, 0) = Inr (if 0 < v then (E, v) else (N, 0))"
  using assms by (simp add: get_best_action_value_def actions_def)

lemma d0_simps [simp]: "uniform d0 = 0" "choice d0 = E" "pick d0 = 0"
  by (simp_all add: d0_def)

lemma move_lake2_E: "move lake2 (0, 0) E 0 = Inr (1, 0)"
  by (simp add: move_def lake2_transitions)

text \<open>An exploring or greedy step east from the start of \<open>lake2\<close> that reaches the target.\<close>

lemma lake2_step:
  assumes Q: "Qvalues q ((0, 0), N) = Some 0" "Qvalues q ((0, 0), S) = Some 0"
      "Qvalues q ((0, 0), E) = Some v" "Qvalues q ((0, 0), W) = Some 0" "0 \<le> v"
    and st: "cur_state q = (0, 0)"
    and ch: "0 < current_epsilon q \<or> 0 < v"
  shows "q_step lake2 lake2 n fa fe d0 q =
     anneal n fa fe
        (q\<lparr> Qvalues := (Qvalues q)(((0, 0), E) \<mapsto>
                (1 - current_alpha q) * v + current_alpha q * (8 / 10)),
             cur_state := (0, 0), robot_count := robot_count q - 1 \<rparr>)"
  using ch by (auto simp: q_step_def gb_lake2 [OF Q] st move_lake2_E Q)

text \<open>
  C6. The claim is that the decayed rates never fall below their floors
  \<open>0.1 \<sqdot> alpha\<close> and \<open>0.1 \<sqdot> epsilon\<close>. The source subtracts \<open>1 / num_robots\<close>
  whenever a rate is above its floor and does not clamp the result. On the two-cell
  lake with \<open>alpha = epsilon = 1/10\<close> and six robots, five steps that each reach the
  target leave the run unfinished; the fifth is the first with fewer than \<open>1.2\<close> robots
  left, and takes both rates from \<open>1/10\<close> to \<open>1/10 - 1/6 = - 1/15\<close>. The sixth step
  ends the run with both rates at \<open>- 1/15\<close>, below the floor \<open>1/100\<close>.
\<close>

theorem Qlearner_rates_fall_below_floor:
  "map_option (map_sum id (\<lambda>q. (current_alpha q, current_epsilon q, robot_count q)))
     (q_loop lake2 lake2 6 ((1 / 10) * (1 / 10)) ((1 / 10) * (1 / 10))
        [d0, d0, d0, d0, d0, d0] (q_init lake2 (1 / 10) (1 / 10) 6))
   = Some (Inr (- (1 / 15), - (1 / 15), 0))
   \<and> q_loop lake2 lake2 6 ((1 / 10) * (1 / 10)) ((1 / 10) * (1 / 10))
        [d0, d0, d0, d0, d0] (q_init lake2 (1 / 10) (1 / 10) 6) = None
   \<and> - (1 / 15) < (1 / 10) * (1 / 10 :: real)"
  by (simp add: q_step_def get_best_action_value_def actions_def move_lake2_E anneal_def
        q_init_lake2)

section \<open>The global lake\<close>

lemma same_transition_model_exact:
  "same_transition_model G G' \<Longrightarrow> get_transitions G = get_transitions G'"
  unfolding same_transition_model_def by (rule get_transitions_cong) simp_all

lemma fail_loop_rnd_cong:
  "obstructed G = obstructed G' \<Longrightarrow> success_prob G = success_prob G' \<Longrightarrow>
     fail_loop_rnd rnd G cs result remain_p = fail_loop_rnd rnd G' cs result remain_p"
  by (induction cs arbitrary: result remain_p) simp_all

lemma same_transition_model_rnd:
  assumes "same_transition_model G G'"
  shows "get_transitions_rnd rnd G = get_transitions_rnd rnd G'"
proof -
  from assms have sp: "success_prob G = success_prob G'"
    by (simp add: same_transition_model_def)
  from assms have o: "obstructed G = obstructed G'"
    unfolding same_transition_model_def by (intro obstructed_cong) simp_all
  show ?thesis
    unfolding fun_eq_iff get_transitions_rnd_def fail_loop_rnd_cong [OF o sp] o sp by simp
qed

lemma trans_sum_loop_cong:
  "living_reward L = living_reward L' \<Longrightarrow> gamma L = gamma L' \<Longrightarrow>
     trans_sum_loop L rw ts acc = trans_sum_loop L' rw ts acc"
  by (induction ts arbitrary: acc) (auto split: sum.splits)

lemma action_loop_cong:
  assumes "living_reward L = living_reward L'" "gamma L = gamma L'"
    "get_transitions G = get_transitions G'"
  shows "action_loop L G rw st as avs = action_loop L' G' rw st as avs"
  using trans_sum_loop_cong [OF assms(1,2)] assms(3)
  by (induction as arbitrary: avs) (auto split: sum.splits)

lemma trans_sum_loop_rnd_cong:
  "living_reward L = living_reward L' \<Longrightarrow> gamma L = gamma L' \<Longrightarrow>
     trans_sum_loop_rnd rnd L rw ts acc = trans_sum_loop_rnd rnd L' rw ts acc"
  by (induction ts arbitrary: acc) (auto split: sum.splits)

lemma action_loop_rnd_cong:
  assumes "living_reward L = living_reward L'" "gamma L = gamma L'"
    "get_transitions_rnd rnd G = get_transitions_rnd rnd G'"
  shows "action_loop_rnd rnd L G rw st as avs = action_loop_rnd rnd L' G' rw st as avs"
  using trans_sum_loop_rnd_cong [OF assms(1,2)] assms(3)
  by (induction as arbitrary: avs) (auto split: sum.splits)

lemma s1_reward_cong: "same_cells L L' \<Longrightarrow> s1_reward L = s1_reward L'"
  by (simp add: same_cells_def s1_reward_def fun_eq_iff)

lemma state_reward_cong: "same_cells L L' \<Longrightarrow> state_reward L = state_reward L'"
  by (simp add: same_cells_def state_reward_def fun_eq_iff)

lemma sweep_cong:
  assumes sc: "same_cells L L'" and gt: "get_transitions G = get_transitions G'"
  shows "sweep L G threshold prev ss vals delta = sweep L' G' threshold prev ss vals delta"
proof -
  have al: "action_loop L G rw st as avs = action_loop L' G' rw st as avs" for rw st as avs
    using sc gt by (intro action_loop_cong) (simp_all add: same_cells_def)
  show ?thesis
    by (induction ss arbitrary: vals delta)
       (simp_all add: al s1_reward_cong [OF sc] Let_def split: sum.splits option.splits)
qed

lemma vi_loop_cong:
  assumes sc: "same_cells L L'" and gt: "get_transitions G = get_transitions G'"
  shows "vi_loop fuel L G threshold vals = vi_loop fuel L' G' threshold vals"
proof -
  have st: "states L = states L'" using sc by (simp add: same_cells_def)
  show ?thesis
    by (induction fuel arbitrary: vals)
       (simp_all add: sweep_cong [OF sc gt] st split: sum.splits sweep_result.splits)
qed

lemma ep_loop_cong:
  assumes sc: "same_cells L L'" and gt: "get_transitions_rnd rnd G = get_transitions_rnd rnd G'"
  shows "ep_loop rnd L G vals ss pol = ep_loop rnd L' G' vals ss pol"
proof -
  have al: "action_loop_rnd rnd L G rw st as avs = action_loop_rnd rnd L' G' rw st as avs"
    for rw st as avs
    using sc gt by (intro action_loop_rnd_cong) (simp_all add: same_cells_def)
  show ?thesis
    by (induction ss arbitrary: pol)
       (simp_all add: al state_reward_cong [OF sc] split: sum.splits)
qed

lemma move_cong: "get_transitions G = get_transitions G' \<Longrightarrow> move G = move G'"
  by (simp add: move_def fun_eq_iff)

lemma q_step_cong:
  assumes sc: "same_cells L L'" and gt: "get_transitions G = get_transitions G'"
  shows "q_step L G n fa fe d q = q_step L' G' n fa fe d q"
proof -
  from sc have eqs: "targets L = targets L'" "holes L = holes L'"
    "initial_state L = initial_state L'" "gamma L = gamma L'" "hole_reward L = hole_reward L'"
    "target_reward L = target_reward L'" "living_reward L = living_reward L'"
    by (simp_all add: same_cells_def)
  show ?thesis unfolding q_step_def move_cong [OF gt] eqs ..
qed

lemma q_loop_cong:
  assumes sc: "same_cells L L'" and gt: "get_transitions G = get_transitions G'"
  shows "q_loop L G n fa fe ds q = q_loop L' G' n fa fe ds q"
  by (induction ds arbitrary: q) (simp_all add: q_step_cong [OF sc gt] split: sum.splits)

lemma q_init_cong: "same_cells L L' \<Longrightarrow> q_init L = q_init L'"
  by (simp add: q_init_def same_cells_def fun_eq_iff)

lemma solvers_cong:
  assumes sc: "same_cells L L'" and tm: "same_transition_model G G'"
  shows "value_iteration fuel L G threshold = value_iteration fuel L' G' threshold
       \<and> extract_policy rnd L G vals = extract_policy rnd L' G' vals
       \<and> Qlearner L G alpha epsilon num_robots ds = Qlearner L' G' alpha epsilon num_robots ds"
proof -
  note gt = same_transition_model_exact [OF tm]
  note gtr = same_transition_model_rnd [OF tm]
  from sc have st: "states L = states L'" by (simp add: same_cells_def)
  have "value_iteration fuel L G threshold = value_iteration fuel L' G' threshold"
    unfolding value_iteration_def zero_values_def st by (rule vi_loop_cong [OF sc gt])
  moreover have "extract_policy rnd L G vals = extract_policy rnd L' G' vals"
    unfolding extract_policy_def st by (rule ep_loop_cong [OF sc gtr])
  moreover have "Qlearner L G alpha epsilon num_robots ds = Qlearner L' G' alpha epsilon num_robots ds"
    unfolding Qlearner_def q_init_cong [OF sc] q_loop_cong [OF sc gt] ..
  ultimately show ?thesis by simp
qed

lemma sweep_returned_eq:
  "sweep L G threshold prev ss vals delta = Inr (Returned v) \<Longrightarrow> v = prev"
proof (induction ss arbitrary: vals delta)
  case Nil
  then show ?case by simp
next
  case (Cons st rest)
  from Cons.prems obtain avs m old where
    avs: "action_loop L G (s1_reward L prev) st actions [] = Inr avs"
    and m: "py_max avs = Inr m"
    and old: "prev st = Some old"
    by (auto split: sum.splits option.splits)
  show ?case
  proof (cases "max delta \<bar>m - old\<bar> < threshold")
    case True
    with Cons.prems avs m old show ?thesis by (auto simp: Let_def split: if_splits)
  next
    case False
    with Cons.prems avs m old
    have "sweep L G threshold prev rest (vals(st \<mapsto> m)) (max delta \<bar>m - old\<bar>)
            = Inr (Returned v)"
      by (auto simp: Let_def split: if_splits)
    then show ?thesis by (rule Cons.IH)
  qed
qed

lemma vi_loop_chain_exists:
  "vi_loop fuel L G threshold T = Some (Inr v) \<Longrightarrow>
     \<exists>Ts. length Ts < fuel \<and> vi_chain L G threshold (T # Ts) \<and> v = last (T # Ts)"
proof (induction fuel arbitrary: T)
  case 0
  then show ?case by simp
next
  case (Suc fuel)
  show ?case
  proof (cases "sweep L G threshold T (states L) T 0")
    case (Inl e)
    with Suc.prems show ?thesis by simp
  next
    case (Inr r)
    show ?thesis
    proof (cases r)
      case (Returned v0)
      with Inr sweep_returned_eq have v0: "v0 = T" by blast
      from Suc.prems Inr Returned v0 have "v = T" by simp
      moreover from Inr Returned v0 have "vi_chain L G threshold [T]" by simp
      ultimately have "length ([] :: (state \<rightharpoonup> real) list) < Suc fuel
          \<and> vi_chain L G threshold (T # []) \<and> v = last (T # [])" by simp
      then show ?thesis by (rule exI)
    next
      case (Completed T' d)
      with Suc.prems Inr have "vi_loop fuel L G threshold T' = Some (Inr v)" by simp
      from Suc.IH [OF this] obtain Ts' where
        len: "length Ts' < fuel" and ch: "vi_chain L G threshold (T' # Ts')"
        and v: "v = last (T' # Ts')" by blast
      from Inr Completed have "\<exists>delta. sweep L G threshold T (states L) T 0
                                          = Inr (Completed T' delta)" by simp
      with ch have "vi_chain L G threshold (T # T' # Ts')" by simp
      with len v have "length (T' # Ts') < Suc fuel
          \<and> vi_chain L G threshold (T # T' # Ts') \<and> v = last (T # T' # Ts')" by simp
      then show ?thesis by (rule exI)
    qed
  qed
qed

lemma vi_chain_loop:
  "vi_chain L G threshold (T # Ts) \<Longrightarrow> length Ts < fuel \<Longrightarrow>
     vi_loop fuel L G threshold T = Some (Inr (last (T # Ts)))"
proof (induction Ts arbitrary: T fuel)
  case Nil
  then obtain fuel' where f: "fuel = Suc fuel'" by (cases fuel) simp_all
  from Nil.prems have "sweep L G threshold T (states L) T 0 = Inr (Returned T)" by simp
  then show ?case by (simp add: f)
next
  case (Cons T' Ts)
  then obtain fuel' where f: "fuel = Suc fuel'" by (cases fuel) simp_all
  from Cons.prems obtain delta where
    sw: "sweep L G threshold T (states L) T 0 = Inr (Completed T' delta)"
    and ch: "vi_chain L G threshold (T' # Ts)" by auto
  from Cons.prems f have "length Ts < fuel'" by simp
  from Cons.IH [OF ch this] sw show ?case by (simp add: f)
qed

text \<open>\<^verbatim>\<open>value_iteration\<close> returns exactly the last snapshot of a chain of sweeps.\<close>

lemma vi_loop_chain:
  "vi_loop fuel L G threshold T = Some (Inr v) \<longleftrightarrow>
     (\<exists>Ts. length Ts < fuel \<and> vi_chain L G threshold (T # Ts) \<and> v = last (T # Ts))"
  using vi_loop_chain_exists vi_chain_loop by blast

lemma q_loop_chain_exists:
  "q_loop L G n fa fe ds q = Some (Inr qf) \<Longrightarrow>
     \<exists>qs. length qs \<le> length ds \<and> q_chain L G n fa fe ds (q # qs) \<and> qf = last (q # qs)"
proof (induction ds arbitrary: q)
  case Nil
  then have "\<not> robot_count q > 0" and "qf = q" by (auto split: if_splits)
  then have "length ([] :: qstate list) \<le> length ([] :: draw list)
      \<and> q_chain L G n fa fe [] (q # []) \<and> qf = last (q # [])" by simp
  then show ?case by (rule exI)
next
  case (Cons d ds)
  show ?case
  proof (cases "robot_count q > 0")
    case False
    with Cons.prems have "qf = q" by simp
    with False have "length ([] :: qstate list) \<le> length (d # ds)
      \<and> q_chain L G n fa fe (d # ds) (q # []) \<and> qf = last (q # [])" by simp
    then show ?thesis by (rule exI)
  next
    case True
    with Cons.prems obtain q' where
      step: "q_step L G n fa fe d q = Inr q'"
      and rest: "q_loop L G n fa fe ds q' = Some (Inr qf)"
      by (auto split: sum.splits)
    from Cons.IH [OF rest] obtain qs where
      len: "length qs \<le> length ds" and ch: "q_chain L G n fa fe ds (q' # qs)"
      and qf: "qf = last (q' # qs)" by blast
    from True step ch have "q_chain L G n fa fe (d # ds) (q # q' # qs)" by simp
    with len qf have "length (q' # qs) \<le> length (d # ds)
      \<and> q_chain L G n fa fe (d # ds) (q # q' # qs) \<and> qf = last (q # q' # qs)" by simp
    then show ?thesis by (rule exI)
  qed
qed

lemma q_chain_loop:
  "q_chain L G n fa fe ds (q # qs) \<Longrightarrow>
     q_loop L G n fa fe ds q = Some (Inr (last (q # qs)))"
proof (induction qs arbitrary: q ds)
  case Nil
  then show ?case by (cases ds) simp_all
next
  case (Cons q' qs)
  from Cons.prems obtain d ds' where ds: "ds = d # ds'"
    and rc: "robot_count q > 0"
    and step: "q_step L G n fa fe d q = Inr q'"
    and ch: "q_chain L G n fa fe ds' (q' # qs)"
    by (cases ds) auto
  from Cons.IH [OF ch] rc step show ?case by (simp add: ds)
qed

lemma q_chain_length:
  "q_chain L G n fa fe ds (q # qs) \<Longrightarrow> length qs \<le> length ds"
proof (induction qs arbitrary: q ds)
  case Nil
  then show ?case by simp
next
  case (Cons q' qs)
  from Cons.prems obtain d ds' where ds: "ds = d # ds'"
    and ch: "q_chain L G n fa fe ds' (q' # qs)"
    by (cases ds) auto
  from Cons.IH [OF ch] show ?case by (simp add: ds)
qed

text \<open>In a chain of sweeps every snapshot after the first is the Bellman update of the
  one before it, with the transitions of the global lake.\<close>

lemma vi_chain_bellman:
  "vi_chain L G threshold Ts \<Longrightarrow> Suc i < length Ts \<Longrightarrow> s \<in> set (states L) \<Longrightarrow>
     (Ts ! Suc i) s = Some (bellman L G (Ts ! i) s)"
proof (induction Ts arbitrary: i rule: vi_chain.induct)
  case (1 L G threshold)
  then show ?case by simp
next
  case (2 L G threshold T)
  then show ?case by simp
next
  case (3 L G threshold T T' Ts)
  from "3.prems"(1) obtain delta where
    sw: "sweep L G threshold T (states L) T 0 = Inr (Completed T' delta)"
    and ch: "vi_chain L G threshold (T' # Ts)" by auto
  show ?case
  proof (cases i)
    case 0
    from sweep_completed [OF sw, rule_format, of s] "3.prems"(3) show ?thesis by (simp add: 0)
  next
    case (Suc j)
    with "3.prems"(2) have "Suc j < length (T' # Ts)" by simp
    from "3.IH" [OF ch this "3.prems"(3)] show ?thesis by (simp add: Suc)
  qed
qed

text \<open>The last snapshot of a chain passes the stopping test at the first state of the
  iteration order, again with the transitions of the global lake.\<close>

lemma vi_chain_stop:
  "vi_chain L G threshold Ts \<Longrightarrow>
     \<exists>st rest old. states L = st # rest \<and> last Ts st = Some old
        \<and> \<bar>bellman L G (last Ts) st - old\<bar> < threshold"
proof (induction Ts rule: vi_chain.induct)
  case (1 L G threshold)
  then show ?case by simp
next
  case (2 L G threshold T)
  then have sw: "sweep L G threshold T (states L) T 0 = Inr (Returned T)" by simp
  show ?case
  proof (cases "states L")
    case Nil
    with sw show ?thesis by simp
  next
    case (Cons st rest)
    from sw sweep_returns_at_head [of L G threshold T st rest T T]
    obtain old where "T st = Some old" "\<bar>bellman L G T st - old\<bar> < threshold"
      by (auto simp: Cons)
    with Cons show ?thesis by simp
  qed
next
  case (3 L G threshold T T' Ts)
  from "3.prems" have "vi_chain L G threshold (T' # Ts)" by simp
  from "3.IH" [OF this] show ?case by simp
qed

text \<open>In a chain of loop iterations every state is reached from the one before it by
  a move sampled from the transitions of the global lake, classified by the instance.\<close>

lemma q_chain_moves:
  "q_chain L G n fa fe ds qs \<Longrightarrow> Suc i < length qs \<Longrightarrow>
     \<exists>a next. move G (cur_state (qs ! i)) a (pick (ds ! i)) = Inr next
        \<and> cur_state (qs ! Suc i)
            = (if next \<in> targets L \<or> next \<in> holes L then initial_state L else next)"
proof (induction qs arbitrary: ds i)
  case Nil
  then show ?case by simp
next
  case (Cons q qs)
  from Cons.prems(2) obtain q' qs' where qs: "qs = q' # qs'" by (cases qs) auto
  from Cons.prems(1) obtain d ds' where ds: "ds = d # ds'"
    and step: "q_step L G n fa fe d q = Inr q'"
    and ch: "q_chain L G n fa fe ds' (q' # qs')"
    unfolding qs by (cases ds) auto
  show ?case
  proof (cases i)
    case 0
    from q_step_result [OF step] obtain chosen "next" where
      "move G (cur_state q) chosen (pick d) = Inr next"
      "if next \<in> targets L \<or> next \<in> holes L
          then robot_count q' = robot_count q - 1 \<and> cur_state q' = initial_state L
          else robot_count q' = robot_count q \<and> cur_state q' = next" by blast
    then have "move G (cur_state q) chosen (pick d) = Inr next
        \<and> cur_state q' = (if next \<in> targets L \<or> next \<in> holes L then initial_state L else next)"
      by (auto split: if_splits)
    then have "\<exists>a next. move G (cur_state q) a (pick d) = Inr next
        \<and> cur_state q' = (if next \<in> targets L \<or> next \<in> holes L then initial_state L else next)"
      by (intro exI [of _ chosen] exI [of _ "next"])
    then show ?thesis unfolding 0 qs ds by simp
  next
    case (Suc j)
    with Cons.prems(2) have "Suc j < length (q' # qs')" by (simp add: qs)
    from Cons.IH [unfolded qs, OF ch this] show ?thesis by (simp add: Suc qs ds)
  qed
qed

text \<open>
  C9. \<open>value_iteration\<close>, \<open>extract_policy\<close> and \<open>Qlearner\<close> take their transition lists
  and sampled moves from the global lake \<open>G\<close> and their cell classes, start state,
  discount and rewards from the instance \<open>L\<close>. First, none of the three results changes
  when the global is replaced by a lake with the same width, height, blocked cells and
  success probability, or the instance by a lake with the same classes and rewards,
  whatever its own transitions. Then, for each method, what it returns:
  \<open>value_iteration\<close> returns exactly the last snapshot of a chain of sweeps from the zero
  table, and every snapshot of a chain is, state by state, the maximum over the actions
  of \<open>Q(s, a)\<close> summed over the transitions of \<open>G\<close> with the rewards of \<open>L\<close>;
  \<open>extract_policy\<close> returns exactly when every destination under the transitions of \<open>G\<close>
  is a target or hole of \<open>L\<close> or has a value, and then the policy that gives each state
  of \<open>L\<close> the first action maximal for the sums over the transitions of \<open>G\<close>;
  \<open>Qlearner\<close> returns exactly the table of the last state of a chain of loop iterations
  from its initial state, and in every chain each state is reached from the one before
  by a move sampled from the transitions of \<open>G\<close> and classified by \<open>L\<close>.
\<close>

theorem solvers_use_global_transitions:
  assumes sc: "same_cells L L'" and tm: "same_transition_model G G'"
  shows "(value_iteration fuel L' G' threshold = value_iteration fuel L G threshold
          \<and> extract_policy rnd L' G' vals = extract_policy rnd L G vals
          \<and> Qlearner L' G' alpha epsilon n ds = Qlearner L G alpha epsilon n ds)
       \<and> (value_iteration fuel L G threshold = Some (Inr v) \<longleftrightarrow>
            (\<exists>Ts. length Ts < fuel \<and> vi_chain L G threshold (zero_values L # Ts)
                  \<and> v = last (zero_values L # Ts)))
       \<and> (\<forall>Ts i s. vi_chain L G threshold Ts \<and> Suc i < length Ts \<and> s \<in> set (states L) \<longrightarrow>
            (Ts ! Suc i) s = Some (Max (Q_spec L G (Ts ! i) s ` {N, S, E, W})))
       \<and> (extract_policy rnd L G vals = Inr pol \<longleftrightarrow>
            (\<forall>s \<in> set (states L). ep_reads rnd L G vals s)
            \<and> (\<forall>s \<in> set (states L). \<exists>k. first_max_index
                     (map (Q_rounded rnd L G (state_value L vals) s) [N, S, E, W]) k
                   \<and> pol s = Some ([N, S, E, W] ! k))
            \<and> (\<forall>s. s \<notin> set (states L) \<longrightarrow> pol s = None))
       \<and> (Qlearner L G alpha epsilon n ds = Some (Inr Q) \<longleftrightarrow>
            (\<exists>qs. q_chain L G n ((1 / 10) * alpha) ((1 / 10) * epsilon) ds
                     (q_init L alpha epsilon n # qs)
                  \<and> Q = Qvalues (last (q_init L alpha epsilon n # qs))))
       \<and> (\<forall>qs i. q_chain L G n fa fe ds qs \<and> Suc i < length qs \<longrightarrow>
            (\<exists>a next. move G (cur_state (qs ! i)) a (pick (ds ! i)) = Inr next
               \<and> cur_state (qs ! Suc i)
                   = (if next \<in> targets L \<or> next \<in> holes L then initial_state L else next)))"
proof -
  have c1: "value_iteration fuel L' G' threshold = value_iteration fuel L G threshold
          \<and> extract_policy rnd L' G' vals = extract_policy rnd L G vals
          \<and> Qlearner L' G' alpha epsilon n ds = Qlearner L G alpha epsilon n ds"
    using solvers_cong [OF sc tm, of fuel threshold rnd vals alpha epsilon n ds] by simp
  have c2: "value_iteration fuel L G threshold = Some (Inr v) \<longleftrightarrow>
            (\<exists>Ts. length Ts < fuel \<and> vi_chain L G threshold (zero_values L # Ts)
                  \<and> v = last (zero_values L # Ts))"
    unfolding value_iteration_def by (rule vi_loop_chain)
  have acts: "set actions = {N, S, E, W}" by (simp add: actions_def)
  have c3: "\<forall>Ts i s. vi_chain L G threshold Ts \<and> Suc i < length Ts \<and> s \<in> set (states L) \<longrightarrow>
            (Ts ! Suc i) s = Some (Max (Q_spec L G (Ts ! i) s ` {N, S, E, W}))"
    using vi_chain_bellman [of L G threshold] unfolding bellman_def acts by blast
  have c4: "extract_policy rnd L G vals = Inr pol \<longleftrightarrow>
            (\<forall>s \<in> set (states L). ep_reads rnd L G vals s)
            \<and> (\<forall>s \<in> set (states L). \<exists>k. first_max_index
                     (map (Q_rounded rnd L G (state_value L vals) s) [N, S, E, W]) k
                   \<and> pol s = Some ([N, S, E, W] ! k))
            \<and> (\<forall>s. s \<notin> set (states L) \<longrightarrow> pol s = None)"
    using extract_policy_iff [of rnd L G vals pol] unfolding actions_def .
  have c5: "Qlearner L G alpha epsilon n ds = Some (Inr Q) \<longleftrightarrow>
            (\<exists>qs. q_chain L G n ((1 / 10) * alpha) ((1 / 10) * epsilon) ds
                     (q_init L alpha epsilon n # qs)
                  \<and> Q = Qvalues (last (q_init L alpha epsilon n # qs)))"
    (is "?lhs \<longleftrightarrow> ?rhs")
  proof
    assume ?lhs
    then obtain x where x: "q_loop L G n ((1 / 10) * alpha) ((1 / 10) * epsilon) ds
                                (q_init L alpha epsilon n) = Some x"
      and m: "map_sum id Qvalues x = Inr Q"
      by (auto simp: Qlearner_def)
    from m obtain qf where qf: "x = Inr qf" and Q: "Q = Qvalues qf" by (cases x) auto
    from q_loop_chain_exists [OF x [unfolded qf]] Q show ?rhs by blast
  next
    assume ?rhs
    then obtain qs where
      ch: "q_chain L G n ((1 / 10) * alpha) ((1 / 10) * epsilon) ds (q_init L alpha epsilon n # qs)"
      and Q: "Q = Qvalues (last (q_init L alpha epsilon n # qs))" by blast
    from q_chain_loop [OF ch] Q show ?lhs by (simp add: Qlearner_def)
  qed
  have c6: "\<forall>qs i. q_chain L G n fa fe ds qs \<and> Suc i < length qs \<longrightarrow>
            (\<exists>a next. move G (cur_state (qs ! i)) a (pick (ds ! i)) = Inr next
               \<and> cur_state (qs ! Suc i)
                   = (if next \<in> targets L \<or> next \<in> holes L then initial_state L else next))"
    using q_chain_moves [of L G n fa fe ds] by blast
  show ?thesis
    by (rule conjI [OF c1 conjI [OF c2 conjI [OF c3 conjI [OF c4 conjI [OF c5 c6]]]]])
qed


lemma lake32_fields [simp]:
  "success_prob lake32 = 8 / 10" "width lake32 = 3" "height lake32 = 2" "blocked lake32 = {}"
  by (simp_all add: lake32_def)

lemma lake32_transitions:
  "get_transitions lake32 (0, 0) N = [((1, 0), 1 / 10), ((0, 0), 9 / 10)]"
  "get_transitions lake32 (0, 0) S = [((0, 1), 8 / 10), ((1, 0), 1 / 10), ((0, 0), 1 / 10)]"
  "get_transitions lake32 (1, 0) N = [((2, 0), 1 / 10), ((0, 0), 1 / 10), ((1, 0), 8 / 10)]"
  "get_transitions lake32 (1, 0) S = [((1, 1), 8 / 10), ((2, 0), 1 / 10), ((0, 0), 1 / 10)]"
  by (simp_all add: get_transitions_def obstructed_def)

text \<open>With the three-by-two lake as the global, every method called on the row of
  three cells steps south off the instance's grid and fails at the lookup, whichever
  state is iterated first; with the instance's own transitions none of them does.\<close>

lemma value_iteration_other_global:
  "value_iteration 1 lake3 lake32 (1 / 5) = Some (Inl KeyError)"
  "value_iteration 1 lake3r lake32 (1 / 5) = Some (Inl KeyError)"
  by (simp_all add: value_iteration_def states_lake3 states_lake3r actions_def
        lake32_transitions s1_reward_def zero_values_def)

lemma extract_policy_other_global:
  "extract_policy (\<lambda>x. x) lake3 lake32 (zero_values lake3) = Inl KeyError"
  "extract_policy (\<lambda>x. x) lake3r lake32 (zero_values lake3r) = Inl KeyError"
  by (simp_all add: extract_policy_def states_lake3 states_lake3r actions_def
        get_transitions_rnd_id lake32_transitions state_reward_def zero_values_def)

lemma d_south_simps [simp]: "uniform d_south = 0" "choice d_south = S" "pick d_south = 0"
  by (simp_all add: d_south_def)

lemma q_init_lake3_outside: "Qvalues (q_init lake3 al ep n) ((0, 1), a) = None"
  by (simp add: q_init_def states_lake3 actions_def)

lemma Qlearner_other_global:
  "Qlearner lake3 lake32 (1 / 10) (1 / 10) 1 [d_south] = Some (Inl KeyError)"
  by (simp add: Qlearner_def q_step_def gb_init_lake3 q_init_lake3 move_def lake32_transitions
        get_best_action_value_def actions_def q_init_lake3_outside)

lemma Qlearner_own_transitions:
  "Qlearner lake3 lake3 (1 / 10) (1 / 10) 1 [d_south] = None"
  by (simp add: Qlearner_def q_step_def gb_init_lake3 q_init_lake3 move_def lake3_transitions
        anneal_def)


theorem solvers_use_global_transitions_witness:
  "same_cells lake3 (lake3\<lparr>width := 100, height := 100, success_prob := 0\<rparr>)
   \<and> same_transition_model lake32 (lake32\<lparr>targets := {}, states := [], living_reward := 7\<rparr>)
   \<and> value_iteration 1 (lake3\<lparr>width := 100, height := 100, success_prob := 0\<rparr>)
         (lake32\<lparr>targets := {}, states := [], living_reward := 7\<rparr>) (1 / 5)
       = Some (Inl KeyError)
   \<and> extract_policy (\<lambda>x. x) (lake3\<lparr>width := 100, height := 100, success_prob := 0\<rparr>)
         (lake32\<lparr>targets := {}, states := [], living_reward := 7\<rparr>) (zero_values lake3)
       = Inl KeyError
   \<and> Qlearner (lake3\<lparr>width := 100, height := 100, success_prob := 0\<rparr>)
         (lake32\<lparr>targets := {}, states := [], living_reward := 7\<rparr>) (1 / 10) (1 / 10) 1 [d_south]
       = Some (Inl KeyError)
   \<and> value_iteration 1 lake3 lake3 (1 / 5) \<noteq> Some (Inl KeyError)
   \<and> extract_policy (\<lambda>x. x) lake3 lake3 (zero_values lake3)
       = Inr [(0, 0) \<mapsto> N, (1, 0) \<mapsto> E]
   \<and> Qlearner lake3 lake3 (1 / 10) (1 / 10) 1 [d_south] = None"
proof -
  have sc: "same_cells lake3 (lake3\<lparr>width := 100, height := 100, success_prob := 0\<rparr>)"
    by (simp add: same_cells_def)
  have tm: "same_transition_model lake32
              (lake32\<lparr>targets := {}, states := [], living_reward := 7\<rparr>)"
    by (simp add: same_transition_model_def)
  note cong = solvers_use_global_transitions [OF sc tm, THEN conjunct1,
      of 1 "1 / 5" "\<lambda>x. x" "zero_values lake3" "1 / 10" "1 / 10" 1 "[d_south]"]
  have own: "value_iteration 1 lake3 lake3 (1 / 5) \<noteq> Some (Inl KeyError)"
    unfolding lake3_def by (rule value_iteration_total)
  from cong value_iteration_other_global(1) extract_policy_other_global(1) Qlearner_other_global
  have "value_iteration 1 (lake3\<lparr>width := 100, height := 100, success_prob := 0\<rparr>)
         (lake32\<lparr>targets := {}, states := [], living_reward := 7\<rparr>) (1 / 5)
       = Some (Inl KeyError)
   \<and> extract_policy (\<lambda>x. x) (lake3\<lparr>width := 100, height := 100, success_prob := 0\<rparr>)
         (lake32\<lparr>targets := {}, states := [], living_reward := 7\<rparr>) (zero_values lake3)
       = Inl KeyError
   \<and> Qlearner (lake3\<lparr>width := 100, height := 100, success_prob := 0\<rparr>)
         (lake32\<lparr>targets := {}, states := [], living_reward := 7\<rparr>) (1 / 10) (1 / 10) 1 [d_south]
       = Some (Inl KeyError)" by simp
  with sc tm own lake3_extract Qlearner_own_transitions show ?thesis by simp
qed

section \<open>Properties of policy evaluation\<close>

lemma rollout_loop_follows:
  "rollout_loop L policy ds st rewards = Some (Inr ((b, r), ds')) \<Longrightarrow>
     \<exists>path. follows L policy (st # path) ds \<and> ds' = drop (length path) ds
            \<and> b = (last (st # path) \<in> targets L)
            \<and> r = rewards + real (length path) * living_reward L
                   + (if b then target_reward L else hole_reward L)"
proof (induction L policy ds st rewards rule: rollout_loop.induct)
  case (1 L policy st rewards)
  then show ?case
    by (intro exI [of _ "[]"]) (auto split: if_splits option.splits)
next
  case (2 L policy k ds st rewards)
  show ?case
  proof (cases "st \<in> targets L \<or> st \<in> holes L")
    case True
    with "2.prems" show ?thesis
      by (intro exI [of _ "[]"]) (auto split: if_splits)
  next
    case False
    with "2.prems" obtain a st' where a: "policy st = Some a"
      and mv: "move L st a k = Inr st'"
      and rest: "rollout_loop L policy ds st' (rewards + living_reward L) = Some (Inr ((b, r), ds'))"
      by (auto split: option.splits sum.splits)
    from False have nt: "st \<notin> targets L" and nh: "st \<notin> holes L" by simp_all
    from "2.IH" [OF nt nh a mv rest] obtain path where
      f: "follows L policy (st' # path) ds" and d: "ds' = drop (length path) ds"
      and b: "b = (last (st' # path) \<in> targets L)"
      and r: "r = rewards + living_reward L + real (length path) * living_reward L
                   + (if b then target_reward L else hole_reward L)" by blast
    show ?thesis
      using f d b r nt nh a mv
      by (intro exI [of _ "st' # path"]) (simp add: algebra_simps)
  qed
qed

lemma follows_rollout_loop:
  "follows L policy (st # path) ds \<Longrightarrow>
     rollout_loop L policy ds st rewards
       = Some (Inr ((last (st # path) \<in> targets L,
                     rewards + real (length path) * living_reward L
                       + (if last (st # path) \<in> targets L then target_reward L else hole_reward L)),
                    drop (length path) ds))"
proof (induction path arbitrary: st ds rewards)
  case Nil
  then show ?case by (cases ds) auto
next
  case (Cons s' path)
  from Cons.prems obtain a k rest where nt: "st \<notin> targets L" and nh: "st \<notin> holes L"
    and a: "policy st = Some a" and ds: "ds = k # rest"
    and mv: "move L st a k = Inr s'" and f: "follows L policy (s' # path) rest"
    by (auto split: option.splits list.splits)
  from Cons.IH [OF f, of "rewards + living_reward L"] nt nh a mv show ?case
    by (simp add: ds algebra_simps)
qed

lemma simple_policy_rollout_path:
  "simple_policy_rollout L policy ds = Some (Inr ((b, r), ds')) \<Longrightarrow>
     \<exists>path. path \<noteq> [] \<and> hd path = initial_state L \<and> follows L policy path ds
            \<and> ds' = drop (length path - 1) ds
            \<and> b = (last path \<in> targets L) \<and> r = trial_reward L path"
proof -
  assume "simple_policy_rollout L policy ds = Some (Inr ((b, r), ds'))"
  then have "rollout_loop L policy ds (initial_state L) 0 = Some (Inr ((b, r), ds'))"
    by (simp add: simple_policy_rollout_def)
  from rollout_loop_follows [OF this] obtain path where
    "follows L policy (initial_state L # path) ds" "ds' = drop (length path) ds"
    "b = (last (initial_state L # path) \<in> targets L)"
    "r = 0 + real (length path) * living_reward L + (if b then target_reward L else hole_reward L)"
    by blast
  then show ?thesis
    by (intro exI [of _ "initial_state L # path"]) (simp add: trial_reward_def)
qed

lemma path_simple_policy_rollout:
  assumes "path \<noteq> []" "hd path = initial_state L" "follows L policy path ds"
  shows "simple_policy_rollout L policy ds
           = Some (Inr ((last path \<in> targets L, trial_reward L path), drop (length path - 1) ds))"
proof -
  from assms(1,2) obtain rest where path: "path = initial_state L # rest"
    by (cases path) auto
  from assms(3) have "follows L policy (initial_state L # rest) ds" by (simp add: path)
  from follows_rollout_loop [OF this, of 0] show ?thesis
    by (simp add: simple_policy_rollout_def path trial_reward_def)
qed

lemma test_loop_trials:
  "test_loop L policy n ds numSuccess totalRewards = Some (Inr (x, y)) \<Longrightarrow>
     \<exists>paths. length paths = n \<and> trials L policy paths ds
        \<and> x = numSuccess + real (length (filter (\<lambda>p. last p \<in> targets L) paths))
        \<and> y = totalRewards + (\<Sum>p \<leftarrow> paths. trial_reward L p)"
proof (induction n arbitrary: ds numSuccess totalRewards)
  case 0
  then show ?case by (intro exI [of _ "[]"]) simp
next
  case (Suc n)
  from Suc.prems obtain b r ds' where
    ro: "simple_policy_rollout L policy ds = Some (Inr ((b, r), ds'))"
    and rest: "test_loop L policy n ds' (if b then numSuccess + 1 else numSuccess)
                 (totalRewards + r) = Some (Inr (x, y))"
    by (auto split: option.splits sum.splits)
  from simple_policy_rollout_path [OF ro] obtain path where
    p: "path \<noteq> []" "hd path = initial_state L" "follows L policy path ds"
    and d: "ds' = drop (length path - 1) ds"
    and b: "b = (last path \<in> targets L)" and r: "r = trial_reward L path" by blast
  from Suc.IH [OF rest] obtain paths where
    len: "length paths = n" and tr: "trials L policy paths ds'"
    and x: "x = (if b then numSuccess + 1 else numSuccess)
              + real (length (filter (\<lambda>p. last p \<in> targets L) paths))"
    and y: "y = totalRewards + r + (\<Sum>p \<leftarrow> paths. trial_reward L p)" by blast
  show ?case
    using len tr x y p d b r
    by (intro exI [of _ "path # paths"]) auto
qed

lemma trials_test_loop:
  "trials L policy paths ds \<Longrightarrow>
     test_loop L policy (length paths) ds numSuccess totalRewards
       = Some (Inr (numSuccess + real (length (filter (\<lambda>p. last p \<in> targets L) paths)),
                    totalRewards + (\<Sum>p \<leftarrow> paths. trial_reward L p)))"
proof (induction paths arbitrary: ds numSuccess totalRewards)
  case Nil
  then show ?case by simp
next
  case (Cons path paths)
  from Cons.prems have p: "path \<noteq> []" "hd path = initial_state L" "follows L policy path ds"
    and tr: "trials L policy paths (drop (length path - 1) ds)" by simp_all
  note ro = path_simple_policy_rollout [OF p]
  have "test_loop L policy (length (path # paths)) ds numSuccess totalRewards
          = test_loop L policy (length paths) (drop (length path - 1) ds)
              (if last path \<in> targets L then numSuccess + 1 else numSuccess)
              (totalRewards + trial_reward L path)"
    by (simp add: ro)
  also note Cons.IH [OF tr]
  finally show ?case by (simp add: algebra_simps)
qed

text \<open>
  C7, amended. For every policy and every trial count \<open>t\<close> other than 0,
  \<open>test_policy\<close> returns exactly when each of its trials reaches a target or a hole,
  and what it returns is the pair of the number of trials that end at a target divided
  by \<open>t\<close> and the sum of the trials' accumulated rewards divided by \<open>t\<close>; each trial
  starts at the start state, adds \<open>living_reward\<close> for each step taken from a state that
  is neither target nor hole, and ends by adding the target reward at a target
  (success) or the hole reward at a hole (failure). The trials are the \<open>max t 0\<close>
  iterations of the loop.
\<close>

theorem test_policy_pair:
  assumes "t \<noteq> 0"
  shows "test_policy L policy t ds = Some (Inr r) \<longleftrightarrow>
     (\<exists>paths. length paths = nat t \<and> trials L policy paths ds
        \<and> r = (real (length (filter (\<lambda>p. last p \<in> targets L) paths)) / of_int t,
               (\<Sum>p \<leftarrow> paths. trial_reward L p) / of_int t))"
proof
  assume run: "test_policy L policy t ds = Some (Inr r)"
  then obtain x y where tl: "test_loop L policy (nat t) ds 0 0 = Some (Inr (x, y))"
    and r: "r = (x / of_int t, y / of_int t)"
    using assms by (auto simp: test_policy_def split: option.splits sum.splits)
  from test_loop_trials [OF tl] r show "\<exists>paths. length paths = nat t \<and> trials L policy paths ds
        \<and> r = (real (length (filter (\<lambda>p. last p \<in> targets L) paths)) / of_int t,
               (\<Sum>p \<leftarrow> paths. trial_reward L p) / of_int t)"
    by auto
next
  assume "\<exists>paths. length paths = nat t \<and> trials L policy paths ds
        \<and> r = (real (length (filter (\<lambda>p. last p \<in> targets L) paths)) / of_int t,
               (\<Sum>p \<leftarrow> paths. trial_reward L p) / of_int t)"
  then obtain paths where len: "length paths = nat t" and tr: "trials L policy paths ds"
    and r: "r = (real (length (filter (\<lambda>p. last p \<in> targets L) paths)) / of_int t,
               (\<Sum>p \<leftarrow> paths. trial_reward L p) / of_int t)" by blast
  from trials_test_loop [OF tr, of 0 0] len assms r
  show "test_policy L policy t ds = Some (Inr r)"
    by (simp add: test_policy_def)
qed

text \<open>
  C7 as stated covers every trial count. With \<open>t = 0\<close> no trial runs and the division
  by \<open>t\<close> raises, so no pair is returned.
\<close>

theorem test_policy_zero_trials:
  "test_policy lake3h [(1, 0) \<mapsto> N] 0 [] = Some (Inl ZeroDivisionError)"
  by (simp add: test_policy_def)

lemma lake3h_fields [simp]:
  "success_prob lake3h = 8 / 10" "gamma lake3h = 9 / 10" "hole_reward lake3h = - 5"
  "target_reward lake3h = 1" "living_reward lake3h = - (1 / 10)"
  "width lake3h = 3" "height lake3h = 1" "targets lake3h = {(2, 0)}" "holes lake3h = {(0, 0)}"
  "blocked lake3h = {}" "initial_state lake3h = (1, 0)"
  by (simp_all add: lake3h_def)

lemma lake3h_moves:
  "move lake3h (1, 0) N 0 = Inr (2, 0)"
  "move lake3h (1, 0) N (Suc 0) = Inr (0, 0)"
  "move lake3h (1, 0) N 2 = Inr (1, 0)"
  by (simp_all add: move_def get_transitions_def obstructed_def)

theorem test_policy_pair_witness:
  "(2 :: int) \<noteq> 0
   \<and> trials lake3h [(1, 0) \<mapsto> N] [[(1, 0), (1, 0), (2, 0)], [(1, 0), (0, 0)]] [2, 0, 1]
   \<and> test_policy lake3h [(1, 0) \<mapsto> N] 2 [2, 0, 1] = Some (Inr (1 / 2, - (43 / 20)))"
proof -
  have tr: "trials lake3h [(1, 0) \<mapsto> N] [[(1, 0), (1, 0), (2, 0)], [(1, 0), (0, 0)]] [2, 0, 1]"
    by (simp add: lake3h_moves)
  have "\<exists>paths. length paths = nat 2 \<and> trials lake3h [(1, 0) \<mapsto> N] paths [2, 0, 1]
          \<and> (1 / 2, - (43 / 20))
             = (real (length (filter (\<lambda>p. last p \<in> targets lake3h) paths)) / of_int 2,
                (\<Sum>p \<leftarrow> paths. trial_reward lake3h p) / of_int 2)"
    using tr by (intro exI [of _ "[[(1, 0), (1, 0), (2, 0)], [(1, 0), (0, 0)]]"])
      (simp add: trial_reward_def)
  with test_policy_pair [of 2 lake3h "[(1, 0) \<mapsto> N]" "[2, 0, 1]" "(1 / 2, - (43 / 20))"] tr
  show ?thesis by simp
qed

lemma get_transitions_nonempty:
  assumes L: "L = FrozenLake_init w h start tgts blkd hls"
  shows "get_transitions L st a \<noteq> []"
proof
  assume e: "get_transitions L st a = []"
  then have "kept L st a = [] \<and> \<not> remain_mass L st a > 0"
    by (auto simp: get_transitions_eq split: if_splits)
  moreover have "0 \<le> remain_mass L st a"
    by (rule remain_mass_nonneg) (simp_all add: L)
  ultimately have "sum_list (map snd (kept L st a)) + remain_mass L st a = 0" by simp
  with kept_mass [of L st a] show False by (simp add: L)
qed

lemma move_free:
  assumes L: "L = FrozenLake_init w h start tgts blkd hls"
    and free: "st \<in> set (states L)"
  shows "\<exists>s'. move L st a k = Inr s' \<and> (s' \<in> targets L \<or> s' \<in> holes L \<or> s' \<in> set (states L))"
proof -
  let ?ts = "get_transitions L st a"
  have pos: "\<forall>i \<in> set ?ts. 0 < snd i"
    using get_transitions_entries [OF L free] by force
  then have fl: "filter (\<lambda>i. 0 < snd i) ?ts = ?ts" by simp
  note ne = get_transitions_nonempty [OF L, of st a]
  then have "k mod length ?ts < length ?ts" by simp
  then have mem: "?ts ! (k mod length ?ts) \<in> set ?ts" by (rule nth_mem)
  obtain s' p where sp: "?ts ! (k mod length ?ts) = (s', p)" by (cases "?ts ! (k mod length ?ts)")
  from mem sp have "(s', p) \<in> set ?ts" by simp
  from successor_classes [OF L free this]
  have "s' \<in> targets L \<or> s' \<in> holes L \<or> s' \<in> set (states L)" .
  moreover have "move L st a k = Inr s'"
    using ne sp by (simp add: move_def fl Let_def)
  ultimately show ?thesis by blast
qed

text \<open>On a constructed lake, a rollout that starts at a target, a hole or a free state
  under a policy defined on all free states raises nothing.\<close>

lemma rollout_loop_no_fault:
  assumes L: "L = FrozenLake_init w h start tgts blkd hls"
    and dom: "\<forall>s \<in> set (states L). policy s \<noteq> None"
  shows "st \<in> targets L \<or> st \<in> holes L \<or> st \<in> set (states L) \<Longrightarrow>
           rollout_loop L policy ds st rewards \<noteq> Some (Inl e)"
proof (induction ds arbitrary: st rewards)
  case Nil
  with dom show ?case by (auto split: option.splits)
next
  case (Cons k ds)
  show ?case
  proof (cases "st \<in> targets L \<or> st \<in> holes L")
    case True
    then show ?thesis by auto
  next
    case False
    with Cons.prems have free: "st \<in> set (states L)" by simp
    with dom obtain a where a: "policy st = Some a" by auto
    from move_free [OF L free, of a k] obtain s' where
      mv: "move L st a k = Inr s'"
      and cl: "s' \<in> targets L \<or> s' \<in> holes L \<or> s' \<in> set (states L)" by blast
    from Cons.IH [OF cl] False a mv show ?thesis by simp
  qed
qed

lemma test_loop_no_fault:
  assumes L: "L = FrozenLake_init w h start tgts blkd hls"
    and dom: "\<forall>s \<in> set (states L). policy s \<noteq> None"
    and start: "start \<in> tgts \<or> start \<in> hls \<or> start \<in> set (states L)"
  shows "test_loop L policy n ds numSuccess totalRewards \<noteq> Some (Inl e)"
proof (induction n arbitrary: ds numSuccess totalRewards)
  case 0
  then show ?case by simp
next
  case (Suc n)
  from start have "initial_state L \<in> targets L \<or> initial_state L \<in> holes L
                     \<or> initial_state L \<in> set (states L)" by (simp add: L)
  from rollout_loop_no_fault [OF L dom this]
  have "simple_policy_rollout L policy ds \<noteq> Some (Inl e)"
    by (simp add: simple_policy_rollout_def)
  with Suc.IH show ?case by (auto split: option.splits sum.splits)
qed

lemma test_policy_no_fault:
  assumes L: "L = FrozenLake_init w h start tgts blkd hls"
    and dom: "\<forall>s \<in> set (states L). policy s \<noteq> None"
    and start: "start \<in> tgts \<or> start \<in> hls \<or> start \<in> set (states L)"
    and t: "t \<noteq> 0"
  shows "test_policy L policy t ds \<noteq> Some (Inl e)"
  using test_loop_no_fault [OF L dom start, of "nat t" ds 0 0 e] t
  by (auto simp: test_policy_def split: option.splits sum.splits)

text \<open>A policy that walks into a wall never ends its rollout, whatever is drawn.\<close>

lemma rollout_never_returns:
  "rollout_loop lake3 [(0, 0) \<mapsto> W, (1, 0) \<mapsto> W] ds (0, 0) rewards = None"
  by (induction ds arbitrary: rewards) (simp_all add: move_def lake3_transitions)

section \<open>Q-learning on a constructed lake\<close>

lemma get_best_action_value_total:
  assumes "\<forall>a. Q (st, a) \<noteq> None"
  shows "\<exists>best. get_best_action_value Q st = Inr best"
proof -
  from assms have "\<forall>a \<in> set actions. Q (st, a) \<noteq> None" by simp
  from avm_loop_total [OF this, of "[]"] show ?thesis
    by (simp add: get_best_action_value_def actions_def)
qed

lemma anneal_total: "n \<noteq> 0 \<Longrightarrow> \<exists>q'. anneal n fa fe q = Inr q'"
  by (simp add: anneal_def)

text \<open>On a constructed lake that is also the global lake, a step from a free state with
  a table defined on all free states raises nothing, and leads to such a state again
  when the start state is free.\<close>

lemma q_step_total:
  assumes L: "L = FrozenLake_init w h start tgts blkd hls"
    and free: "cur_state q \<in> set (states L)"
    and dom: "\<forall>s \<in> set (states L). \<forall>a. Qvalues q (s, a) \<noteq> None"
    and n: "n \<noteq> 0"
  shows "\<exists>q'. q_step L L n fa fe d q = Inr q'"
proof -
  from dom free have "\<forall>a. Qvalues q (cur_state q, a) \<noteq> None" by simp
  from get_best_action_value_total [OF this] obtain best where
    gb: "get_best_action_value (Qvalues q) (cur_state q) = Inr best" by blast
  define chosen where "chosen = (if uniform d < current_epsilon q then choice d else fst best)"
  from move_free [OF L free, of chosen "pick d"] obtain "next" where
    mv: "move L (cur_state q) chosen (pick d) = Inr next"
    and cl: "next \<in> targets L \<or> next \<in> holes L \<or> next \<in> set (states L)" by blast
  from dom free obtain old where old: "Qvalues q (cur_state q, chosen) = Some old" by auto
  show ?thesis
  proof (cases "next \<in> targets L \<or> next \<in> holes L")
    case True
    with gb mv old anneal_total [OF n] show ?thesis
      by (auto simp: q_step_def chosen_def [symmetric] Let_def)
  next
    case False
    with cl have "next \<in> set (states L)" by simp
    with dom have "\<forall>a. Qvalues q (next, a) \<noteq> None" by simp
    from get_best_action_value_total [OF this] obtain best' where
      gb': "get_best_action_value (Qvalues q) next = Inr best'" by blast
    from gb mv old gb' False anneal_total [OF n] show ?thesis
      by (auto simp: q_step_def chosen_def [symmetric] Let_def)
  qed
qed

lemma q_step_invariant:
  assumes L: "L = FrozenLake_init w h start tgts blkd hls"
    and free: "cur_state q \<in> set (states L)"
    and dom: "\<forall>s \<in> set (states L). \<forall>a. Qvalues q (s, a) \<noteq> None"
    and start: "start \<in> set (states L)"
    and step: "q_step L L n fa fe d q = Inr q'"
  shows "cur_state q' \<in> set (states L) \<and> (\<forall>s \<in> set (states L). \<forall>a. Qvalues q' (s, a) \<noteq> None)"
proof -
  from q_step_result [OF step] obtain best chosen "next" old where
    mv: "move L (cur_state q) chosen (pick d) = Inr next"
    and Q': "Qvalues q' = (Qvalues q)((cur_state q, chosen) \<mapsto>
            (1 - current_alpha q) * old
            + current_alpha q * (living_reward L + gamma L * bootstrap L (Qvalues q) next))"
    and st': "if next \<in> targets L \<or> next \<in> holes L
          then robot_count q' = robot_count q - 1 \<and> cur_state q' = initial_state L
          else robot_count q' = robot_count q \<and> cur_state q' = next" by blast
  from move_free [OF L free, of chosen "pick d"] mv
  have cl: "next \<in> targets L \<or> next \<in> holes L \<or> next \<in> set (states L)" by simp
  have "cur_state q' \<in> set (states L)"
  proof (cases "next \<in> targets L \<or> next \<in> holes L")
    case True
    with st' start show ?thesis by (simp add: L)
  next
    case False
    with st' cl show ?thesis by auto
  qed
  moreover from dom Q' have "\<forall>s \<in> set (states L). \<forall>a. Qvalues q' (s, a) \<noteq> None" by simp
  ultimately show ?thesis by simp
qed

lemma q_loop_no_fault:
  assumes L: "L = FrozenLake_init w h start tgts blkd hls"
    and start: "start \<in> set (states L)"
    and n: "n \<noteq> 0"
  shows "cur_state q \<in> set (states L) \<Longrightarrow>
         \<forall>s \<in> set (states L). \<forall>a. Qvalues q (s, a) \<noteq> None \<Longrightarrow>
         q_loop L L n fa fe ds q \<noteq> Some (Inl e)"
proof (induction ds arbitrary: q)
  case Nil
  then show ?case by simp
next
  case (Cons d ds)
  show ?case
  proof (cases "robot_count q > 0")
    case False
    then show ?thesis by simp
  next
    case True
    from q_step_total [OF L Cons.prems(1,2) n] obtain q' where
      step: "q_step L L n fa fe d q = Inr q'" by blast
    from q_step_invariant [OF L Cons.prems(1,2) start step]
    have "cur_state q' \<in> set (states L)"
      "\<forall>s \<in> set (states L). \<forall>a. Qvalues q' (s, a) \<noteq> None" by simp_all
    from Cons.IH [OF this] True step show ?thesis by simp
  qed
qed

lemma q_init_defined:
  "s \<in> set (states L) \<Longrightarrow> Qvalues (q_init L alpha epsilon n) (s, a) = Some 0"
proof -
  assume s: "s \<in> set (states L)"
  have a: "a \<in> set actions" by (cases a) (simp_all add: actions_def)
  let ?items = "concat (map (\<lambda>st. map (\<lambda>a. ((st, a), 0 :: real)) actions) (states L))"
  have mem: "((s, a), 0) \<in> set ?items" using s a by auto
  from weak_map_of_SomeI [OF mem] obtain v where v: "map_of ?items (s, a) = Some v" by blast
  from map_of_SomeD [OF v] have "v = 0" by auto
  with v show ?thesis by (simp add: q_init_def)
qed

text \<open>On a constructed lake with a free start state, \<open>Qlearner\<close> raises nothing.\<close>

lemma Qlearner_no_fault:
  assumes L: "L = FrozenLake_init w h start tgts blkd hls"
    and start: "start \<in> set (states L)"
  shows "Qlearner L L alpha epsilon n ds \<noteq> Some (Inl e)"
proof (cases "n = 0")
  case True
  then have "q_loop L L n (1 / 10 * alpha) (1 / 10 * epsilon) ds (q_init L alpha epsilon n)
               = Some (Inr (q_init L alpha epsilon n))"
    by (cases ds) (simp_all add: q_init_def)
  then show ?thesis by (simp add: Qlearner_def)
next
  case False
  have "cur_state (q_init L alpha epsilon n) \<in> set (states L)"
    using start by (simp add: q_init_def L)
  moreover have "\<forall>s \<in> set (states L). \<forall>a. Qvalues (q_init L alpha epsilon n) (s, a) \<noteq> None"
    by (simp add: q_init_defined)
  ultimately have "q_loop L L n (1 / 10 * alpha) (1 / 10 * epsilon) ds (q_init L alpha epsilon n)
                     \<noteq> Some (Inl e)"
    by (rule q_loop_no_fault [OF L start False])
  moreover have "map_sum id Qvalues x \<noteq> Inl e" if "x \<noteq> Inl e" for x :: "error + qstate"
    using that by (cases x) auto
  ultimately show ?thesis by (auto simp: Qlearner_def)
qed

text \<open>A rate that is above its floor by less than one decrement is taken below the
  floor by the next annealing step.\<close>

lemma anneal_undershoot:
  assumes "of_int (robot_count q) < (2 / 10) * (of_int n :: real)" "n \<noteq> 0"
    and "fa < current_alpha q" "current_alpha q < fa + 1 / of_int n"
    and "anneal n fa fe q = Inr q'"
  shows "current_alpha q' < fa"
  using assms by (auto simp: anneal_def split: if_splits)

end
